theory Spec2Isabelle
  imports Main "HOL-Library.Multiset" "HOL-Library.Product_Lexorder" "HOL-Library.Log_Nat"
begin

section \<open>Data model of app.py\<close>

text \<open>
  A task is the dictionary built by the input form.  Dates are the values of
  Python's \<^verbatim>\<open>datetime.date\<close>, held by their proleptic ordinal
  (\<^verbatim>\<open>date.toordinal()\<close>); \<^verbatim>\<open>None\<close> is \<open>None\<close>.
\<close>

record task =
  id_task :: string
  title :: string
  duration_min :: int
  importance :: int
  due :: "int option"
  status :: string

text \<open>
  The four label strings returned by \<^verbatim>\<open>compute_quadrant\<close>.  Each starts with
  its own two-letter prefix "Q1", "Q2", "Q3", "Q4" (followed by a Chinese description), and
  the source tells them apart by that prefix only (\<^verbatim>\<open>q.startswith("Q1")\<close>), so a
  constructor stands for each label.
\<close>

datatype quadrant = Q1 | Q2 | Q3 | Q4

datatype py_error = OverflowError | ValueError | KeyError

text \<open>
  \<^verbatim>\<open>tomorrow + timedelta(days=n)\<close>: \<^verbatim>\<open>timedelta\<close> refuses more
  than 999999999 days, and a date outside \<^verbatim>\<open>date.min .. date.max\<close>
  (ordinals 1 to 3652059) raises \<^verbatim>\<open>OverflowError\<close>.
\<close>

definition date_add_days :: "int \<Rightarrow> int \<Rightarrow> py_error + int" where
  "date_add_days d n =
     (if 999999999 < \<bar>n\<bar> then Inl OverflowError
      else if d + n < 1 \<or> 3652059 < d + n then Inl OverflowError
      else Inr (d + n))"

definition quadrant_of :: "bool \<Rightarrow> bool \<Rightarrow> quadrant" where
  "quadrant_of important urgent =
     (if important \<and> urgent then Q1
      else if important \<and> \<not> urgent then Q2
      else if (\<not> important) \<and> urgent then Q3
      else Q4)"

definition compute_quadrant :: "task \<Rightarrow> int \<Rightarrow> int \<Rightarrow> int \<Rightarrow> py_error + quadrant" where
  "compute_quadrant t tomorrow importance_threshold urgent_days =
     (let important = (importance_threshold \<le> importance t) in
      case due t of
        None \<Rightarrow> Inr (quadrant_of important False)
      | Some d \<Rightarrow>
          (case date_add_days tomorrow (max (urgent_days - 1) 0) of
             Inl e \<Rightarrow> Inl e
           | Inr urgent_limit \<Rightarrow> Inr (quadrant_of important (d \<le> urgent_limit))))"

section \<open>Times of day and datetimes\<close>

text \<open>
  A block is a pair of \<^verbatim>\<open>datetime.time\<close> values, of which \<^verbatim>\<open>dt_on\<close>
  reads the hour and the minute only (below 24 and 60 in every value of the Python type).  A datetime is counted in seconds from midnight of
  ordinal day 0; all datetimes of one run carry the same fixed zone, so their comparison
  and difference are those of the wall clock.
\<close>

record time =
  hour :: nat
  minute :: nat

definition dt_on :: "int \<Rightarrow> time \<Rightarrow> int" where
  "dt_on day t = ((day * 24 + int (hour t)) * 60 + int (minute t)) * 60"

definition minutes_between :: "int \<Rightarrow> int \<Rightarrow> int" where
  "minutes_between a_dt b_dt = (b_dt - a_dt) div 60"

section \<open>Python floats\<close>

text \<open>
  \<^verbatim>\<open>buffer_ratio\<close> is a Python float and the schedule limit is computed in
  binary64 arithmetic.  A finite float is held by its exact rational value.
  \<open>round_double\<close> rounds a rational to the nearest number with a 53-bit significand,
  ties to the even significand; this is the IEEE rounding of every result between
  \<open>2 ^ -1022\<close> and \<open>2 ^ 1024\<close> in magnitude, where all results of this program
  lie (a Python list holds fewer than \<open>2 ^ 63\<close> blocks of under a day each).
\<close>

datatype pyfloat = Finite rat | PosInf | NegInf | NaN

definition pow2 :: "int \<Rightarrow> rat" where
  "pow2 k = (if 0 \<le> k then 2 ^ nat k else 1 / 2 ^ nat (- k))"

text \<open>For \<open>0 < x\<close>, \<open>ilog2 x\<close> is the exponent \<open>e\<close> with \<open>2 ^ e \<le> x < 2 ^ (e + 1)\<close>.\<close>

definition ilog2 :: "rat \<Rightarrow> int" where
  "ilog2 x =
     (if 1 \<le> x then int (floorlog 2 (nat \<lfloor>x\<rfloor>)) - 1
      else (let l = int (floorlog 2 (nat \<lfloor>1 / x\<rfloor>)) - 1
            in if x = pow2 (- l) then - l else - l - 1))"

definition round_half_even :: "rat \<Rightarrow> int" where
  "round_half_even x =
     (let f = \<lfloor>x\<rfloor>; r = x - of_int f
      in if r < 1 / 2 then f
         else if 1 / 2 < r then f + 1
         else if even f then f else f + 1)"

definition round_double :: "rat \<Rightarrow> rat" where
  "round_double x =
     (if x = 0 then 0
      else (let a = \<bar>x\<bar>; u = pow2 (ilog2 a - 52)
            in sgn x * of_int (round_half_even (a / u)) * u))"

fun py_lt :: "pyfloat \<Rightarrow> pyfloat \<Rightarrow> bool" where
  "py_lt (Finite a) (Finite b) = (a < b)"
| "py_lt (Finite a) PosInf = True"
| "py_lt NegInf (Finite b) = True"
| "py_lt NegInf PosInf = True"
| "py_lt _ _ = False"

text \<open>
  The built-ins \<^verbatim>\<open>min(a, b)\<close> and \<^verbatim>\<open>max(a, b)\<close> keep the first argument
  unless the second compares strictly smaller (greater); every comparison with NaN is false.
\<close>

definition py_min :: "pyfloat \<Rightarrow> pyfloat \<Rightarrow> pyfloat" where
  "py_min a b = (if py_lt b a then b else a)"

definition py_max :: "pyfloat \<Rightarrow> pyfloat \<Rightarrow> pyfloat" where
  "py_max a b = (if py_lt a b then b else a)"

fun py_sub :: "pyfloat \<Rightarrow> pyfloat \<Rightarrow> pyfloat" where
  "py_sub (Finite a) (Finite b) = Finite (round_double (a - b))"
| "py_sub NaN _ = NaN"
| "py_sub _ NaN = NaN"
| "py_sub PosInf PosInf = NaN"
| "py_sub NegInf NegInf = NaN"
| "py_sub PosInf _ = PosInf"
| "py_sub NegInf _ = NegInf"
| "py_sub (Finite a) PosInf = NegInf"
| "py_sub (Finite a) NegInf = PosInf"

definition inf_times :: "bool \<Rightarrow> rat \<Rightarrow> pyfloat" where
  "inf_times positive a =
     (if a = 0 then NaN else if (0 < a) = positive then PosInf else NegInf)"

fun py_mul :: "pyfloat \<Rightarrow> pyfloat \<Rightarrow> pyfloat" where
  "py_mul (Finite a) (Finite b) = Finite (round_double (a * b))"
| "py_mul NaN _ = NaN"
| "py_mul _ NaN = NaN"
| "py_mul (Finite a) PosInf = inf_times True a"
| "py_mul (Finite a) NegInf = inf_times False a"
| "py_mul PosInf (Finite b) = inf_times True b"
| "py_mul NegInf (Finite b) = inf_times False b"
| "py_mul PosInf PosInf = PosInf"
| "py_mul NegInf NegInf = PosInf"
| "py_mul PosInf NegInf = NegInf"
| "py_mul NegInf PosInf = NegInf"

definition float_of_int :: "int \<Rightarrow> pyfloat" where
  "float_of_int n = Finite (round_double (of_int n))"

text \<open>\<^verbatim>\<open>int(x)\<close> truncates towards zero and raises on NaN and the infinities.\<close>

fun py_int :: "pyfloat \<Rightarrow> py_error + int" where
  "py_int (Finite a) = Inr (if 0 \<le> a then \<lfloor>a\<rfloor> else \<lceil>a\<rceil>)"
| "py_int NaN = Inl ValueError"
| "py_int _ = Inl OverflowError"

text \<open>The float literal \<^verbatim>\<open>0.8\<close> is the binary64 number nearest to 4/5.\<close>

definition float_0_8 :: pyfloat where
  "float_0_8 = Finite (3602879701896397 / 4503599627370496)"

definition compute_sched_limit :: "int \<Rightarrow> pyfloat \<Rightarrow> py_error + int" where
  "compute_sched_limit total_available buffer_ratio =
     py_int (py_mul (float_of_int total_available)
               (py_sub (Finite 1) (py_max (Finite 0) (py_min buffer_ratio float_0_8))))"

section \<open>The schedule generator\<close>

record schedule_entry =
  start :: int
  end_dt :: int
  entry_title :: string
  entry_quadrant :: quadrant
  task_id :: string

text \<open>The variables the placement loop of \<^verbatim>\<open>generate_schedule\<close> updates.\<close>

record sched_state =
  used :: int
  seg_idx :: nat
  cursor :: int
  schedule :: "schedule_entry list"
  overflow :: "task list"

type_synonym segment = "int \<times> int"

type_synonym enriched_task = "task \<times> quadrant \<times> int"

type_synonym gen_result =
  "schedule_entry list \<times> (quadrant \<rightharpoonup> task list) \<times> (string \<rightharpoonup> int) \<times> task list"

text \<open>The blocks with \<^verbatim>\<open>e_dt > s_dt\<close>, anchored to the day, in the given order.\<close>

fun build_segments :: "int \<Rightarrow> (time \<times> time) list \<Rightarrow> segment list" where
  "build_segments tomorrow [] = []"
| "build_segments tomorrow ((s_t, e_t) # blocks) =
     (let s_dt = dt_on tomorrow s_t; e_dt = dt_on tomorrow e_t
      in if s_dt < e_dt then (s_dt, e_dt) # build_segments tomorrow blocks
         else build_segments tomorrow blocks)"

definition due_key :: "task \<Rightarrow> int" where
  "due_key t = (case due t of Some d \<Rightarrow> d | None \<Rightarrow> 10 ^ 9)"

text \<open>The classification loop; it stops at the first task whose classification raises.\<close>

fun enrich :: "task list \<Rightarrow> int \<Rightarrow> int \<Rightarrow> int \<Rightarrow> py_error + enriched_task list" where
  "enrich [] tomorrow importance_threshold urgent_days = Inr []"
| "enrich (t # ts) tomorrow importance_threshold urgent_days =
     (case compute_quadrant t tomorrow importance_threshold urgent_days of
        Inl e \<Rightarrow> Inl e
      | Inr q \<Rightarrow>
          (case enrich ts tomorrow importance_threshold urgent_days of
             Inl e \<Rightarrow> Inl e
           | Inr rest \<Rightarrow> Inr ((t, q, due_key t) # rest)))"

definition bucket :: "quadrant \<Rightarrow> enriched_task list \<Rightarrow> enriched_task list" where
  "bucket q0 enriched = filter (\<lambda>(t, q, d). q = q0) enriched"

definition key_due_first :: "enriched_task \<Rightarrow> int \<times> int" where
  "key_due_first x = (case x of (t, q, d) \<Rightarrow> (d, - importance t))"

definition key_importance_first :: "enriched_task \<Rightarrow> int \<times> int" where
  "key_importance_first x = (case x of (t, q, d) \<Rightarrow> (- importance t, d))"

text \<open>
  \<^verbatim>\<open>list.sort(key=...)\<close> is stable and ascending, tuples compared
  lexicographically: \<open>sort_key\<close> on the lexicographic order of pairs.
\<close>

definition ordered_tasks :: "enriched_task list \<Rightarrow> int \<Rightarrow> enriched_task list" where
  "ordered_tasks enriched ensure_q2 =
     (let q1 = sort_key key_due_first (bucket Q1 enriched);
          q2 = sort_key key_due_first (bucket Q2 enriched);
          q3 = sort_key key_due_first (bucket Q3 enriched);
          q4 = sort_key key_importance_first (bucket Q4 enriched);
          q2_early = take (nat (max 0 ensure_q2)) q2;
          q2_rest = drop (nat (max 0 ensure_q2)) q2
      in q1 @ q2_early @ q2_rest @ q3 @ q4)"

function move_cursor :: "segment list \<Rightarrow> nat \<Rightarrow> int \<Rightarrow> nat \<times> int" where
  "move_cursor segments si cur =
     (if si < length segments then
        (case segments ! si of (s, e) \<Rightarrow>
           (let cur1 = (if cur < s then s else cur)
            in if cur1 < e then (si, cur1)
               else move_cursor segments (si + 1)
                      (if si + 1 < length segments then fst (segments ! (si + 1)) else cur1)))
      else (si, cur))"
  by pat_completeness auto
termination
  by (relation "measure (\<lambda>(segments, si, cur). length segments - si)") auto

declare move_cursor.simps [simp del]

text \<open>
  One round of the loop of \<^verbatim>\<open>move_cursor\<close>: the cursor raised to the start of
  segment \<open>si\<close>, and the cursor the loop carries into segment \<open>si + 1\<close>.
\<close>

definition seg_start :: "segment list \<Rightarrow> nat \<Rightarrow> int \<Rightarrow> int" where
  "seg_start segments si cur = (if cur < fst (segments ! si) then fst (segments ! si) else cur)"

definition next_cur :: "segment list \<Rightarrow> nat \<Rightarrow> int \<Rightarrow> int" where
  "next_cur segments si cur =
     (if si + 1 < length segments then fst (segments ! (si + 1)) else seg_start segments si cur)"

lemma move_cursor_unfold:
  "move_cursor segments si cur =
     (if si < length segments then
        (if seg_start segments si cur < snd (segments ! si) then (si, seg_start segments si cur)
         else move_cursor segments (si + 1) (next_cur segments si cur))
      else (si, cur))"
  by (subst move_cursor.simps)
    (simp add: case_prod_beta Let_def seg_start_def next_cur_def)

lemma move_cursor_end: "\<not> si < length segments \<Longrightarrow> move_cursor segments si cur = (si, cur)"
  by (subst move_cursor_unfold) simp

lemma move_cursor_stop:
  "si < length segments \<Longrightarrow> seg_start segments si cur < snd (segments ! si) \<Longrightarrow>
   move_cursor segments si cur = (si, seg_start segments si cur)"
  by (subst move_cursor_unfold) simp

lemma move_cursor_next:
  "si < length segments \<Longrightarrow> \<not> seg_start segments si cur < snd (segments ! si) \<Longrightarrow>
   move_cursor segments si cur = move_cursor segments (si + 1) (next_cur segments si cur)"
  by (subst move_cursor_unfold) simp

lemma move_cursor_induct2 [case_names End Stop Next]:
  assumes e: "\<And>si cur. \<not> si < length segments \<Longrightarrow> P si cur"
    and s: "\<And>si cur. si < length segments \<Longrightarrow> seg_start segments si cur < snd (segments ! si) \<Longrightarrow> P si cur"
    and n: "\<And>si cur. si < length segments \<Longrightarrow> \<not> seg_start segments si cur < snd (segments ! si) \<Longrightarrow>
         P (si + 1) (next_cur segments si cur) \<Longrightarrow> P si cur"
  shows "P si cur"
proof -
  have "\<forall>si cur. k = length segments - si \<longrightarrow> P si cur" for k
  proof (induction k)
    case 0
    then show ?case using e by simp
  next
    case (Suc k)
    show ?case
    proof (intro allI impI)
      fix si cur
      assume k: "Suc k = length segments - si"
      then have lt: "si < length segments" by simp
      show "P si cur"
      proof (cases "seg_start segments si cur < snd (segments ! si)")
        case True
        show ?thesis by (rule s [OF lt True])
      next
        case False
        from k have "k = length segments - (si + 1)" by simp
        with Suc have "P (si + 1) (next_cur segments si cur)" by blast
        then show ?thesis by (rule n [OF lt False])
      qed
    qed
  qed
  then show ?thesis by blast
qed

lemma move_cursor_idx_ge: "si \<le> fst (move_cursor segments si cur)"
proof (induction si cur rule: move_cursor_induct2 [where segments = segments])
  case (End si cur)
  then show ?case by (simp add: move_cursor_end)
next
  case (Stop si cur)
  then show ?case by (simp add: move_cursor_stop)
next
  case (Next si cur)
  have "move_cursor segments si cur = move_cursor segments (si + 1) (next_cur segments si cur)"
    using Next(1,2) by (rule move_cursor_next)
  with Next(3) show ?case by simp
qed

text \<open>
  The inner \<^verbatim>\<open>while\<close> loop of one placement attempt.  It returns the segment index and
  the cursor it leaves, and whether the task fits at that cursor.
\<close>

function try_place :: "segment list \<Rightarrow> int \<Rightarrow> nat \<Rightarrow> int \<Rightarrow> nat \<times> int \<times> bool" where
  "try_place segments dur si cur =
     (if si < length segments then
        (case move_cursor segments si cur of (si1, cur1) \<Rightarrow>
           if length segments \<le> si1 then (si1, cur1, False)
           else (case segments ! si1 of (s, e) \<Rightarrow>
                  (let remaining = minutes_between cur1 e
                   in if remaining \<le> 0 then try_place segments dur (si1 + 1) cur1
                      else if dur \<le> remaining then (si1, cur1, True)
                      else try_place segments dur (si1 + 1) cur1)))
      else (si, cur, False))"
  by pat_completeness auto
termination
proof (relation "measure (\<lambda>(segments, dur, si, cur). length segments - si)", goal_cases)
  case 1
  show ?case by simp
next
  case (2 segments dur si cur x si1 cur1)
  then show ?case
    using move_cursor_idx_ge [of si segments cur] by (auto simp: fst_def split: prod.splits)
next
  case (3 segments dur si cur x si1 cur1)
  then show ?case
    using move_cursor_idx_ge [of si segments cur] by (auto simp: fst_def split: prod.splits)
qed

declare try_place.simps [simp del]

definition new_entry :: "int \<Rightarrow> int \<Rightarrow> task \<Rightarrow> quadrant \<Rightarrow> schedule_entry" where
  "new_entry cur dur t q =
     \<lparr>start = cur, end_dt = cur + dur * 60, entry_title = title t,
      entry_quadrant = q, task_id = id_task t\<rparr>"

text \<open>
  \<^verbatim>\<open>cursor + timedelta(minutes=dur)\<close>.  \<^verbatim>\<open>timedelta\<close> normalises the minutes to
  days and seconds and refuses more than 999999999 days either way; the sum must be a
  datetime of the calendar, from 0001-01-01 00:00 (second 86400 of this count) to the end of
  9999-12-31 (ordinal 3652059).  Both failures are \<^verbatim>\<open>OverflowError\<close>.
\<close>

definition datetime_add_minutes :: "int \<Rightarrow> int \<Rightarrow> py_error + int" where
  "datetime_add_minutes dt m =
     (if 999999999 < \<bar>m div 1440\<bar> then Inl OverflowError
      else if dt + m * 60 < 86400 \<or> 3652060 * 86400 \<le> dt + m * 60 then Inl OverflowError
      else Inr (dt + m * 60))"

text \<open>
  The body of the \<^verbatim>\<open>for\<close> loop over the ordered tasks, for one task.  A task that
  fits is placed from the cursor to \<^verbatim>\<open>end = cursor + timedelta(minutes=dur)\<close>, which
  becomes the new cursor; the entry built by \<open>new_entry\<close> ends at that same sum.  The
  addition is the one step of the loop that can raise.
\<close>

definition place_task ::
  "segment list \<Rightarrow> int \<Rightarrow> sched_state \<Rightarrow> enriched_task \<Rightarrow> py_error + sched_state" where
  "place_task segments sched_limit st x =
     (case x of (t, q, d) \<Rightarrow>
        (let dur = duration_min t
         in if sched_limit < used st + dur then Inr (st\<lparr>overflow := overflow st @ [t]\<rparr>)
            else (case try_place segments dur (seg_idx st) (cursor st) of
                    (si, cur, placed) \<Rightarrow>
                      if placed
                      then (case datetime_add_minutes cur dur of
                              Inl e \<Rightarrow> Inl e
                            | Inr end_t \<Rightarrow>
                                Inr (st\<lparr>used := used st + dur, seg_idx := si, cursor := end_t,
                                        schedule := schedule st @ [new_entry cur dur t q]\<rparr>))
                      else Inr (st\<lparr>seg_idx := si, cursor := cur,
                                   overflow := overflow st @ [t]\<rparr>))))"

text \<open>The \<^verbatim>\<open>for\<close> loop; it stops at the first task whose placement raises.\<close>

fun place_all ::
  "segment list \<Rightarrow> int \<Rightarrow> sched_state \<Rightarrow> enriched_task list \<Rightarrow> py_error + sched_state" where
  "place_all segments sched_limit st [] = Inr st"
| "place_all segments sched_limit st (x # ordered) =
     (case place_task segments sched_limit st x of
        Inl e \<Rightarrow> Inl e
      | Inr st1 \<Rightarrow> place_all segments sched_limit st1 ordered)"

text \<open>
  The state before the loop; \<^verbatim>\<open>segments[0]\<close> is read only after the check that
  \<^verbatim>\<open>segments\<close> is not empty.
\<close>

definition initial_state :: "segment list \<Rightarrow> sched_state" where
  "initial_state segments =
     (case move_cursor segments 0 (fst (segments ! 0)) of
        (si, cur) \<Rightarrow> \<lparr>used = 0, seg_idx = si, cursor = cur, schedule = [], overflow = []\<rparr>)"

definition empty_quad_map :: "quadrant \<rightharpoonup> task list" where
  "empty_quad_map = [Q1 \<mapsto> [], Q2 \<mapsto> [], Q3 \<mapsto> [], Q4 \<mapsto> []]"

text \<open>\<^verbatim>\<open>quad_map[q].append(t)\<close> for every classified task; a missing key would raise.\<close>

fun fill_quad_map ::
  "(quadrant \<rightharpoonup> task list) \<Rightarrow> enriched_task list \<Rightarrow> py_error + (quadrant \<rightharpoonup> task list)" where
  "fill_quad_map quad_map [] = Inr quad_map"
| "fill_quad_map quad_map ((t, q, d) # rest) =
     (case quad_map q of
        None \<Rightarrow> Inl KeyError
      | Some ts \<Rightarrow> fill_quad_map (quad_map(q \<mapsto> ts @ [t])) rest)"

definition total_available_of :: "segment list \<Rightarrow> int" where
  "total_available_of segments = sum_list (map (\<lambda>(s, e). minutes_between s e) segments)"

definition make_meta :: "int \<Rightarrow> int \<Rightarrow> int \<Rightarrow> (string \<rightharpoonup> int)" where
  "make_meta total_available sched_limit used_min =
     [''total_available_min'' \<mapsto> total_available,
      ''sched_limit_min'' \<mapsto> sched_limit,
      ''used_min'' \<mapsto> used_min]"

definition generate_schedule ::
  "task list \<Rightarrow> int \<Rightarrow> (time \<times> time) list \<Rightarrow> int \<Rightarrow> int \<Rightarrow> pyfloat \<Rightarrow> int
     \<Rightarrow> py_error + gen_result" where
  "generate_schedule tasks tomorrow blocks importance_threshold urgent_days buffer_ratio ensure_q2 =
     (let todo = filter (\<lambda>t. status t = ''todo'') tasks
      in if todo = [] then Inr ([], Map.empty, Map.empty, [])
         else
          (let segments = build_segments tomorrow blocks
           in if segments = [] then Inr ([], Map.empty, Map.empty, todo)
              else
               (let total_available = total_available_of segments
                in case compute_sched_limit total_available buffer_ratio of
                     Inl e \<Rightarrow> Inl e
                   | Inr sched_limit \<Rightarrow>
                       (case enrich todo tomorrow importance_threshold urgent_days of
                          Inl e \<Rightarrow> Inl e
                        | Inr enriched \<Rightarrow>
                            (let ordered = ordered_tasks enriched ensure_q2
                             in case place_all segments sched_limit
                                       (initial_state segments) ordered of
                                  Inl e \<Rightarrow> Inl e
                                | Inr final \<Rightarrow>
                                    (case fill_quad_map empty_quad_map enriched of
                                       Inl e \<Rightarrow> Inl e
                                     | Inr quad_map \<Rightarrow>
                                         Inr (schedule final, quad_map,
                                              make_meta total_available sched_limit
                                                (used final),
                                              overflow final)))))))"

text \<open>The module constants, the default parameters of both functions.\<close>

definition IMPORTANCE_THRESHOLD :: int where "IMPORTANCE_THRESHOLD = 4"

definition URGENT_DAYS :: int where "URGENT_DAYS = 1"

definition BUFFER_RATIO :: pyfloat where
  "BUFFER_RATIO = Finite (3602879701896397 / 18014398509481984)"

definition ENSURE_Q2 :: int where "ENSURE_Q2 = 1"

text \<open>Inputs used to run the functions on concrete data.\<close>

definition mk_task :: "string \<Rightarrow> int \<Rightarrow> int \<Rightarrow> int option \<Rightarrow> task" where
  "mk_task name dur imp d =
     \<lparr>id_task = name, title = name, duration_min = dur, importance = imp, due = d,
      status = ''todo''\<rparr>"

definition clock :: "nat \<Rightarrow> nat \<Rightarrow> time" where
  "clock h m = \<lparr>hour = h, minute = m\<rparr>"

text \<open>The union of the value lists of a quadrant map.\<close>

definition quad_map_tasks :: "(quadrant \<rightharpoonup> task list) \<Rightarrow> task list" where
  "quad_map_tasks quad_map =
     concat (map (\<lambda>q. case quad_map q of None \<Rightarrow> [] | Some ts \<Rightarrow> ts) [Q1, Q2, Q3, Q4])"

text \<open>
  A result with its two dictionaries read at their keys: the schedule, the task lists of the
  four quadrant keys, the three meta values, and the overflow.
\<close>

definition view_result ::
  "py_error + gen_result \<Rightarrow>
   py_error + (schedule_entry list \<times> task list option list \<times> int option list \<times> task list)" where
  "view_result r =
     (case r of
        Inl e \<Rightarrow> Inl e
      | Inr (sch, quad_map, meta, ov) \<Rightarrow>
          Inr (sch, map quad_map [Q1, Q2, Q3, Q4],
               map meta [''total_available_min'', ''sched_limit_min'', ''used_min''], ov))"

text \<open>The schedule entry of a task: its id and title, lasting the task's duration.\<close>

definition entry_for :: "task \<Rightarrow> schedule_entry \<Rightarrow> bool" where
  "entry_for t e \<longleftrightarrow>
     task_id e = id_task t \<and> entry_title e = title t
     \<and> end_dt e = start e + duration_min t * 60"

definition within_segment :: "segment \<Rightarrow> schedule_entry \<Rightarrow> bool" where
  "within_segment seg e \<longleftrightarrow> fst seg \<le> start e \<and> end_dt e \<le> snd seg"

text \<open>Two half-open intervals \<open>[start, end)\<close> that share no instant.\<close>

definition non_overlapping :: "schedule_entry \<Rightarrow> schedule_entry \<Rightarrow> bool" where
  "non_overlapping e1 e2 \<longleftrightarrow> end_dt e1 \<le> start e2 \<or> end_dt e2 \<le> start e1"

definition segments_disjoint :: "segment list \<Rightarrow> bool" where
  "segments_disjoint segments \<longleftrightarrow>
     sorted_wrt (\<lambda>seg seg'. snd seg \<le> fst seg' \<or> snd seg' \<le> fst seg) segments"

text \<open>Segments in chronological order: each ends no later than any later one starts.\<close>

definition chronological :: "segment list \<Rightarrow> bool" where
  "chronological segments \<longleftrightarrow> sorted_wrt (\<lambda>seg seg'. snd seg \<le> fst seg') segments"

text \<open>
  What the loop keeps true of the entries placed so far: each lies within a segment no later
  in the list than the current one and, if within the current one, ends at or before the
  cursor; and no two overlap.
\<close>

definition placement_inv :: "segment list \<Rightarrow> sched_state \<Rightarrow> bool" where
  "placement_inv segments st \<longleftrightarrow>
     (\<forall>e \<in> set (schedule st). \<exists>k. k < length segments \<and> k \<le> seg_idx st
         \<and> within_segment (segments ! k) e \<and> (k = seg_idx st \<longrightarrow> end_dt e \<le> cursor st))
     \<and> sorted_wrt non_overlapping (schedule st)"

text \<open>The cursor is not beyond the end of the current segment.\<close>

definition cursor_ok :: "segment list \<Rightarrow> nat \<Rightarrow> int \<Rightarrow> bool" where
  "cursor_ok segments si cur \<longleftrightarrow> (si < length segments \<longrightarrow> cur \<le> snd (segments ! si))"

text \<open>
  The sort keys of the ordering policy, read off a classified task, and the result of a
  stable ascending sort: \<open>qs\<close> holds the elements of \<open>xs\<close>, ascending by \<open>key\<close>, those
  of equal key in their order in \<open>xs\<close>.
\<close>

definition by_due_then_importance :: "enriched_task \<Rightarrow> int \<times> int" where
  "by_due_then_importance x = (due_key (fst x), - importance (fst x))"

definition by_importance_then_due :: "enriched_task \<Rightarrow> int \<times> int" where
  "by_importance_then_due x = (- importance (fst x), due_key (fst x))"

definition stably_sorted ::
  "(enriched_task \<Rightarrow> int \<times> int) \<Rightarrow> enriched_task list \<Rightarrow> enriched_task list \<Rightarrow> bool" where
  "stably_sorted key xs qs \<longleftrightarrow>
     mset qs = mset xs \<and> sorted (map key qs)
     \<and> (\<forall>k. filter (\<lambda>x. key x = k) qs = filter (\<lambda>x. key x = k) xs)"

section \<open>Classification and the quadrant map\<close>

lemma clamp_Finite:
  "case py_max (Finite 0) (py_min r float_0_8) of
     Finite c \<Rightarrow> 0 \<le> c \<and> c \<le> 3602879701896397 / 4503599627370496
   | _ \<Rightarrow> False"
  by (cases r) (simp_all add: py_min_def py_max_def float_0_8_def)

lemma compute_sched_limit_Inr: "\<exists>n. compute_sched_limit tot buffer_ratio = Inr n"
proof -
  obtain c where "py_max (Finite 0) (py_min buffer_ratio float_0_8) = Finite c"
    using clamp_Finite [of buffer_ratio] by (auto split: pyfloat.splits)
  then show ?thesis by (simp add: compute_sched_limit_def float_of_int_def)
qed

lemma enrich_Inr_iff:
  "(\<exists>enriched. enrich ts tomorrow thr ud = Inr enriched) \<longleftrightarrow>
   (\<forall>t \<in> set ts. \<exists>q. compute_quadrant t tomorrow thr ud = Inr q)"
  by (induction ts) (auto split: sum.splits)

lemma enrich_map_fst: "enrich ts tomorrow thr ud = Inr enriched \<Longrightarrow> map fst enriched = ts"
  by (induction ts arbitrary: enriched) (auto split: sum.splits)

lemma enrich_bucket:
  "enrich ts tomorrow thr ud = Inr enriched \<Longrightarrow>
   map fst (bucket q0 enriched) = filter (\<lambda>t. compute_quadrant t tomorrow thr ud = Inr q0) ts"
  by (induction ts arbitrary: enriched) (auto simp: bucket_def split: sum.splits)

lemma fill_quad_map_total:
  "\<forall>q. quad_map q \<noteq> None \<Longrightarrow>
   fill_quad_map quad_map xs = Inr (\<lambda>q. Some (the (quad_map q) @ map fst (bucket q xs)))"
proof (induction xs arbitrary: quad_map)
  case Nil
  then show ?case by (auto simp: bucket_def)
next
  case (Cons x xs)
  obtain t q d where x: "x = (t, q, d)" by (cases x)
  from Cons.prems obtain ts where ts: "quad_map q = Some ts" by auto
  have "\<forall>q'. (quad_map(q \<mapsto> ts @ [t])) q' \<noteq> None" using Cons.prems by simp
  then have "fill_quad_map (quad_map(q \<mapsto> ts @ [t])) xs
      = Inr (\<lambda>q'. Some (the ((quad_map(q \<mapsto> ts @ [t])) q') @ map fst (bucket q' xs)))"
    by (rule Cons.IH)
  moreover have "fill_quad_map quad_map (x # xs) = fill_quad_map (quad_map(q \<mapsto> ts @ [t])) xs"
    using x ts by simp
  moreover have "(\<lambda>q'. Some (the ((quad_map(q \<mapsto> ts @ [t])) q') @ map fst (bucket q' xs)))
      = (\<lambda>q'. Some (the (quad_map q') @ map fst (bucket q' (x # xs))))"
    using x ts by (auto simp: fun_eq_iff bucket_def)
  ultimately show ?case by simp
qed

lemma fill_empty_quad_map:
  "fill_quad_map empty_quad_map xs = Inr (\<lambda>q. Some (map fst (bucket q xs)))"
proof -
  have "\<forall>q. empty_quad_map q \<noteq> None"
  proof
    fix q show "empty_quad_map q \<noteq> None" by (cases q) (simp_all add: empty_quad_map_def)
  qed
  from fill_quad_map_total [OF this, of xs]
  have "fill_quad_map empty_quad_map xs
          = Inr (\<lambda>q. Some (the (empty_quad_map q) @ map fst (bucket q xs)))" .
  moreover have "the (empty_quad_map q) = []" for q
    by (cases q) (simp_all add: empty_quad_map_def)
  ultimately show ?thesis by simp
qed

lemma ordered_tasks_ensure_q2:
  "ordered_tasks enriched k =
     sort_key key_due_first (bucket Q1 enriched) @ sort_key key_due_first (bucket Q2 enriched)
     @ sort_key key_due_first (bucket Q3 enriched)
     @ sort_key key_importance_first (bucket Q4 enriched)"
  by (simp add: ordered_tasks_def Let_def)

section \<open>The placement loop\<close>

lemma move_cursor_within:
  "move_cursor segments si cur = (si1, cur1) \<Longrightarrow> si1 < length segments \<Longrightarrow>
   fst (segments ! si1) \<le> cur1 \<and> cur1 < snd (segments ! si1)"
proof (induction si cur rule: move_cursor_induct2 [where segments = segments])
  case (End si cur)
  then show ?case by (simp add: move_cursor_end)
next
  case (Stop si cur)
  then show ?case by (auto simp: move_cursor_stop seg_start_def split: if_splits)
next
  case (Next si cur)
  then show ?case by (simp add: move_cursor_next)
qed

lemma move_cursor_same_idx:
  assumes m: "move_cursor segments si cur = (si, cur1)"
  shows "cur \<le> cur1"
proof (cases "si < length segments")
  case False
  with m show ?thesis by (simp add: move_cursor_end)
next
  case True
  show ?thesis
  proof (cases "seg_start segments si cur < snd (segments ! si)")
    case True
    with \<open>si < length segments\<close> m show ?thesis
      by (auto simp: move_cursor_stop seg_start_def split: if_splits)
  next
    case False
    with True m have "move_cursor segments (si + 1) (next_cur segments si cur) = (si, cur1)"
      by (simp add: move_cursor_next)
    then have "si + 1 \<le> si"
      using move_cursor_idx_ge [of "si + 1" segments "next_cur segments si cur"] by simp
    then show ?thesis by simp
  qed
qed

lemma try_place_unfold:
  "try_place segments dur si cur =
     (if si < length segments then
        (if length segments \<le> fst (move_cursor segments si cur)
         then (fst (move_cursor segments si cur), snd (move_cursor segments si cur), False)
         else if minutes_between (snd (move_cursor segments si cur))
                   (snd (segments ! fst (move_cursor segments si cur))) \<le> 0
         then try_place segments dur (fst (move_cursor segments si cur) + 1)
                (snd (move_cursor segments si cur))
         else if dur \<le> minutes_between (snd (move_cursor segments si cur))
                   (snd (segments ! fst (move_cursor segments si cur)))
         then (fst (move_cursor segments si cur), snd (move_cursor segments si cur), True)
         else try_place segments dur (fst (move_cursor segments si cur) + 1)
                (snd (move_cursor segments si cur)))
      else (si, cur, False))"
  by (subst try_place.simps) (simp add: case_prod_beta Let_def)

lemma try_place_end:
  "\<not> si < length segments \<Longrightarrow> try_place segments dur si cur = (si, cur, False)"
  by (subst try_place_unfold) simp

lemma try_place_exhaust:
  "si < length segments \<Longrightarrow> move_cursor segments si cur = (si1, cur1) \<Longrightarrow>
   length segments \<le> si1 \<Longrightarrow> try_place segments dur si cur = (si1, cur1, False)"
  by (subst try_place_unfold) simp

lemma try_place_fit:
  "si < length segments \<Longrightarrow> move_cursor segments si cur = (si1, cur1) \<Longrightarrow>
   si1 < length segments \<Longrightarrow> 0 < minutes_between cur1 (snd (segments ! si1)) \<Longrightarrow>
   dur \<le> minutes_between cur1 (snd (segments ! si1)) \<Longrightarrow>
   try_place segments dur si cur = (si1, cur1, True)"
  by (subst try_place_unfold) simp

lemma try_place_skip:
  "si < length segments \<Longrightarrow> move_cursor segments si cur = (si1, cur1) \<Longrightarrow>
   si1 < length segments \<Longrightarrow>
   minutes_between cur1 (snd (segments ! si1)) \<le> 0
     \<or> minutes_between cur1 (snd (segments ! si1)) < dur \<Longrightarrow>
   try_place segments dur si cur = try_place segments dur (si1 + 1) cur1"
  by (subst try_place_unfold) auto

lemma try_place_induct2 [case_names End Exhaust Fit Skip]:
  assumes e: "\<And>si cur. \<not> si < length segments \<Longrightarrow> P si cur"
    and x: "\<And>si cur si1 cur1. si < length segments \<Longrightarrow>
              move_cursor segments si cur = (si1, cur1) \<Longrightarrow> length segments \<le> si1 \<Longrightarrow> P si cur"
    and f: "\<And>si cur si1 cur1. si < length segments \<Longrightarrow>
              move_cursor segments si cur = (si1, cur1) \<Longrightarrow> si1 < length segments \<Longrightarrow>
              0 < minutes_between cur1 (snd (segments ! si1)) \<Longrightarrow>
              dur \<le> minutes_between cur1 (snd (segments ! si1)) \<Longrightarrow> P si cur"
    and s: "\<And>si cur si1 cur1. si < length segments \<Longrightarrow>
              move_cursor segments si cur = (si1, cur1) \<Longrightarrow> si1 < length segments \<Longrightarrow>
              minutes_between cur1 (snd (segments ! si1)) \<le> 0
                \<or> minutes_between cur1 (snd (segments ! si1)) < dur \<Longrightarrow>
              P (si1 + 1) cur1 \<Longrightarrow> P si cur"
  shows "P si cur"
proof -
  have "\<forall>si cur. length segments - si \<le> k \<longrightarrow> P si cur" for k
  proof (induction k)
    case 0
    then show ?case using e by simp
  next
    case (Suc k)
    show ?case
    proof (intro allI impI)
      fix si cur
      assume k: "length segments - si \<le> Suc k"
      show "P si cur"
      proof (cases "si < length segments")
        case False
        then show ?thesis by (rule e)
      next
        case lt: True
        obtain si1 cur1 where m: "move_cursor segments si cur = (si1, cur1)"
          by (cases "move_cursor segments si cur")
        have ge: "si \<le> si1" using move_cursor_idx_ge [of si segments cur] m by simp
        show ?thesis
        proof (cases "length segments \<le> si1")
          case True
          show ?thesis by (rule x [OF lt m True])
        next
          case False
          then have lt1: "si1 < length segments" by simp
          show ?thesis
          proof (cases "0 < minutes_between cur1 (snd (segments ! si1))
                         \<and> dur \<le> minutes_between cur1 (snd (segments ! si1))")
            case True
            then show ?thesis using f [OF lt m lt1] by blast
          next
            case False
            then have c: "minutes_between cur1 (snd (segments ! si1)) \<le> 0
                \<or> minutes_between cur1 (snd (segments ! si1)) < dur" by linarith
            have "length segments - (si1 + 1) \<le> k" using k ge lt1 by simp
            with Suc have "P (si1 + 1) cur1" by blast
            then show ?thesis by (rule s [OF lt m lt1 c])
          qed
        qed
      qed
    qed
  qed
  then show ?thesis by blast
qed

lemma try_place_props:
  "try_place segments dur si cur = (si', cur', placed) \<longrightarrow>
     si \<le> si' \<and> (si' = si \<longrightarrow> cur \<le> cur')
     \<and> (placed \<longrightarrow> si' < length segments \<and> fst (segments ! si') \<le> cur'
            \<and> dur \<le> minutes_between cur' (snd (segments ! si')))
     \<and> (\<not> placed \<longrightarrow> length segments \<le> si')"
proof (induction si cur rule: try_place_induct2 [where segments = segments and dur = dur])
  case (End si cur)
  then show ?case by (simp add: try_place_end)
next
  case (Exhaust si cur si1 cur1)
  then show ?case
    using move_cursor_idx_ge [of si segments cur] by (auto simp: try_place_exhaust)
next
  case (Fit si cur si1 cur1)
  have "try_place segments dur si cur = (si1, cur1, True)"
    using Fit by (intro try_place_fit)
  moreover have "si \<le> si1" using move_cursor_idx_ge [of si segments cur] Fit(2) by simp
  moreover have "si1 = si \<longrightarrow> cur \<le> cur1" using move_cursor_same_idx Fit(2) by blast
  moreover have "fst (segments ! si1) \<le> cur1" using move_cursor_within [OF Fit(2,3)] by simp
  ultimately show ?case using Fit(3,5) by auto
next
  case (Skip si cur si1 cur1)
  have "try_place segments dur si cur = try_place segments dur (si1 + 1) cur1"
    using Skip(1-4) by (intro try_place_skip)
  moreover have "si \<le> si1" using move_cursor_idx_ge [of si segments cur] Skip(2) by simp
  ultimately show ?case using Skip(5) by auto
qed

lemma minutes_fit: "dur \<le> minutes_between cur e \<Longrightarrow> cur + dur * 60 \<le> e"
  unfolding minutes_between_def by linarith

lemma datetime_add_minutes_Inr:
  "datetime_add_minutes dt m = Inr r \<Longrightarrow> r = dt + m * 60"
  by (auto simp: datetime_add_minutes_def split: if_splits)

lemma place_task_step:
  assumes "place_task segments sched_limit st (t, q, d) = Inr st'"
  shows "(schedule st' = schedule st \<and> overflow st' = overflow st @ [t] \<and> used st' = used st
          \<and> seg_idx st \<le> seg_idx st'
          \<and> (seg_idx st' = seg_idx st \<longrightarrow> cursor st \<le> cursor st')
          \<and> (length segments \<le> seg_idx st' \<or> (seg_idx st' = seg_idx st \<and> cursor st' = cursor st)))
       \<or> (\<exists>cur. schedule st' = schedule st @ [new_entry cur (duration_min t) t q]
          \<and> overflow st' = overflow st \<and> used st' = used st + duration_min t
          \<and> used st + duration_min t \<le> sched_limit
          \<and> seg_idx st \<le> seg_idx st' \<and> seg_idx st' < length segments
          \<and> (seg_idx st' = seg_idx st \<longrightarrow> cursor st \<le> cur)
          \<and> fst (segments ! seg_idx st') \<le> cur
          \<and> cur + duration_min t * 60 \<le> snd (segments ! seg_idx st')
          \<and> cursor st' = cur + duration_min t * 60)"
proof (cases "sched_limit < used st + duration_min t")
  case True
  with assms have "st' = st\<lparr>overflow := overflow st @ [t]\<rparr>"
    by (simp add: place_task_def Let_def)
  then show ?thesis by simp
next
  case False
  obtain si' cur' placed where tp:
    "try_place segments (duration_min t) (seg_idx st) (cursor st) = (si', cur', placed)"
    by (cases "try_place segments (duration_min t) (seg_idx st) (cursor st)")
  note props = try_place_props [of segments "duration_min t" "seg_idx st" "cursor st" si' cur' placed,
      rule_format, OF tp]
  show ?thesis
  proof (cases placed)
    case True
    with False assms tp obtain end_t where
      e: "datetime_add_minutes cur' (duration_min t) = Inr end_t"
      and s: "st' = st\<lparr>used := used st + duration_min t, seg_idx := si', cursor := end_t,
        schedule := schedule st @ [new_entry cur' (duration_min t) t q]\<rparr>"
      by (auto simp: place_task_def Let_def split: sum.splits)
    have st': "st' = st\<lparr>used := used st + duration_min t, seg_idx := si',
        cursor := cur' + duration_min t * 60,
        schedule := schedule st @ [new_entry cur' (duration_min t) t q]\<rparr>"
      using s datetime_add_minutes_Inr [OF e] by simp
    have "cur' + duration_min t * 60 \<le> snd (segments ! si')"
      using props True by (intro minutes_fit) simp
    with props True False st' show ?thesis by auto
  next
    case False
    with \<open>\<not> sched_limit < used st + duration_min t\<close> assms tp
    have st': "st' = st\<lparr>seg_idx := si', cursor := cur', overflow := overflow st @ [t]\<rparr>"
      by (simp add: place_task_def Let_def)
    with props False show ?thesis by auto
  qed
qed

lemma place_all_Nil: "place_all segments sched_limit st [] = Inr st"
  by simp

lemma place_all_Cons:
  "place_all segments sched_limit st (x # xs) = Inr st' \<longleftrightarrow>
   (\<exists>st1. place_task segments sched_limit st x = Inr st1
      \<and> place_all segments sched_limit st1 xs = Inr st')"
  by (auto split: sum.splits)

lemma place_all_append:
  "place_all segments sched_limit st (xs @ ys) = Inr st' \<longleftrightarrow>
   (\<exists>st1. place_all segments sched_limit st xs = Inr st1
      \<and> place_all segments sched_limit st1 ys = Inr st')"
  by (induction xs arbitrary: st) (auto split: sum.splits)

lemma entry_for_new_entry: "entry_for t (new_entry cur (duration_min t) t q)"
  by (simp add: entry_for_def new_entry_def)

lemma place_all_accounting:
  "place_all segments sched_limit st xs = Inr st' \<Longrightarrow>
   \<exists>placed es ov'.
     schedule st' = schedule st @ es
     \<and> overflow st' = overflow st @ ov'
     \<and> list_all2 entry_for placed es
     \<and> mset placed + mset ov' = mset (map fst xs)
     \<and> used st' = used st + sum_list (map duration_min placed)
     \<and> (used st \<le> sched_limit \<longrightarrow> used st' \<le> sched_limit)"
proof (induction xs arbitrary: st)
  case Nil
  then have "st' = st" by simp
  then have "schedule st' = schedule st @ [] \<and> overflow st' = overflow st @ []
      \<and> list_all2 entry_for [] [] \<and> mset [] + mset [] = mset (map fst ([] :: enriched_task list))
      \<and> used st' = used st + sum_list (map duration_min [])
      \<and> (used st \<le> sched_limit \<longrightarrow> used st' \<le> sched_limit)"
    by simp
  then show ?case by blast
next
  case (Cons x xs)
  obtain t q d where x: "x = (t, q, d)" by (cases x)
  from Cons.prems obtain st1 where st1: "place_task segments sched_limit st (t, q, d) = Inr st1"
    and rest: "place_all segments sched_limit st1 xs = Inr st'"
    unfolding place_all_Cons x by blast
  from Cons.IH [OF rest] obtain placed es ov' where ih:
    "schedule st' = schedule st1 @ es"
    "overflow st' = overflow st1 @ ov'"
    "list_all2 entry_for placed es"
    "mset placed + mset ov' = mset (map fst xs)"
    "used st' = used st1 + sum_list (map duration_min placed)"
    "used st1 \<le> sched_limit \<longrightarrow> used st' \<le> sched_limit"
    by blast
  from place_task_step [OF st1] consider
    (over) "schedule st1 = schedule st" "overflow st1 = overflow st @ [t]" "used st1 = used st"
    | (placed) cur where "schedule st1 = schedule st @ [new_entry cur (duration_min t) t q]"
        "overflow st1 = overflow st" "used st1 = used st + duration_min t"
        "used st + duration_min t \<le> sched_limit"
    by blast
  then show ?case
  proof cases
    case over
    have "schedule st' = schedule st @ es
      \<and> overflow st' = overflow st @ (t # ov')
      \<and> list_all2 entry_for placed es
      \<and> mset placed + mset (t # ov') = mset (map fst (x # xs))
      \<and> used st' = used st + sum_list (map duration_min placed)
      \<and> (used st \<le> sched_limit \<longrightarrow> used st' \<le> sched_limit)"
      using ih over x by simp
    then show ?thesis by blast
  next
    case placed
    have "schedule st' = schedule st @ (new_entry cur (duration_min t) t q # es)
      \<and> overflow st' = overflow st @ ov'
      \<and> list_all2 entry_for (t # placed) (new_entry cur (duration_min t) t q # es)
      \<and> mset (t # placed) + mset ov' = mset (map fst (x # xs))
      \<and> used st' = used st + sum_list (map duration_min (t # placed))
      \<and> (used st \<le> sched_limit \<longrightarrow> used st' \<le> sched_limit)"
      using ih placed x entry_for_new_entry [of t cur q] by simp
    then show ?thesis by blast
  qed
qed

lemma mset_buckets:
  "mset (bucket Q1 xs) + mset (bucket Q2 xs) + mset (bucket Q3 xs) + mset (bucket Q4 xs) = mset xs"
proof (induction xs)
  case Nil
  then show ?case by (simp add: bucket_def)
next
  case (Cons x xs)
  obtain t q d where x: "x = (t, q, d)" by (cases x)
  show ?case using Cons x by (cases q) (simp_all add: bucket_def)
qed

lemma mset_ordered_tasks: "mset (ordered_tasks enriched k) = mset enriched"
  using mset_buckets [of enriched] by (simp add: ordered_tasks_ensure_q2 ac_simps)

lemma initial_state_fields:
  "used (initial_state segments) = 0 \<and> schedule (initial_state segments) = []
   \<and> overflow (initial_state segments) = []"
  by (simp add: initial_state_def split: prod.splits)

lemma generate_schedule_main:
  assumes "filter (\<lambda>t. status t = ''todo'') tasks \<noteq> []"
    and "build_segments tomorrow blocks \<noteq> []"
    and "generate_schedule tasks tomorrow blocks importance_threshold urgent_days buffer_ratio
           ensure_q2 = Inr (sch, quad_map, meta, ov)"
  shows "\<exists>sched_limit enriched final.
    compute_sched_limit (total_available_of (build_segments tomorrow blocks)) buffer_ratio
      = Inr sched_limit
    \<and> enrich (filter (\<lambda>t. status t = ''todo'') tasks) tomorrow importance_threshold urgent_days
      = Inr enriched
    \<and> place_all (build_segments tomorrow blocks) sched_limit
         (initial_state (build_segments tomorrow blocks)) (ordered_tasks enriched ensure_q2)
      = Inr final
    \<and> sch = schedule final \<and> ov = overflow final
    \<and> quad_map = (\<lambda>q. Some (map fst (bucket q enriched)))
    \<and> meta = make_meta (total_available_of (build_segments tomorrow blocks)) sched_limit
               (used final)"
  using assms
  by (auto simp: generate_schedule_def Let_def fill_empty_quad_map split: sum.splits)

lemma quad_map_tasks_buckets:
  "mset (quad_map_tasks (\<lambda>q. Some (map fst (bucket q enriched)))) = mset (map fst enriched)"
proof -
  have "mset (map fst enriched)
      = mset (map fst (bucket Q1 enriched)) + mset (map fst (bucket Q2 enriched))
        + mset (map fst (bucket Q3 enriched)) + mset (map fst (bucket Q4 enriched))"
    using arg_cong [OF mset_buckets [of enriched], of "image_mset fst"] by simp
  then show ?thesis by (simp add: quad_map_tasks_def)
qed

lemma compute_quadrant_Inr:
  assumes "due t = None \<or>
     (max (urgent_days - 1) 0 \<le> 999999999 \<and> 1 \<le> tomorrow + max (urgent_days - 1) 0
      \<and> tomorrow + max (urgent_days - 1) 0 \<le> 3652059)"
  shows "\<exists>q. compute_quadrant t tomorrow importance_threshold urgent_days = Inr q"
  using assms
  by (cases "due t") (auto simp: compute_quadrant_def date_add_days_def Let_def)

lemma build_segments_eq:
  "build_segments tomorrow blocks
   = map (\<lambda>(s_t, e_t). (dt_on tomorrow s_t, dt_on tomorrow e_t))
       (filter (\<lambda>(s_t, e_t). dt_on tomorrow s_t < dt_on tomorrow e_t) blocks)"
  by (induction blocks) (auto simp: Let_def)

lemma build_segments_valid:
  "seg \<in> set (build_segments tomorrow blocks) \<Longrightarrow> fst seg < snd seg"
  by (auto simp: build_segments_eq)

section \<open>Rounding\<close>

lemma round_half_even_le:
  assumes "x \<le> of_int m"
  shows "round_half_even x \<le> m"
proof -
  have f: "\<lfloor>x\<rfloor> \<le> m" using assms by (simp add: floor_le_iff)
  show ?thesis
  proof (cases "\<lfloor>x\<rfloor> = m")
    case True
    then have "of_int m \<le> x" by (metis of_int_floor_le)
    with assms have "x = of_int m" by simp
    then show ?thesis by (simp add: round_half_even_def)
  next
    case False
    with f have "\<lfloor>x\<rfloor> + 1 \<le> m" by simp
    with f show ?thesis by (simp add: round_half_even_def Let_def)
  qed
qed

lemma round_half_even_nonneg: "0 \<le> x \<Longrightarrow> 0 \<le> round_half_even x"
  by (simp add: round_half_even_def Let_def)

lemma pow2_pos: "0 < pow2 k"
  by (simp add: pow2_def)

lemma ilog2_le_52:
  assumes "0 < x" and "x \<le> of_int n" and "n < 2 ^ 53"
  shows "ilog2 x \<le> 52"
proof (cases "1 \<le> x")
  case True
  have "\<lfloor>x\<rfloor> \<le> n" using assms(2) by (simp add: floor_le_iff)
  then have "nat \<lfloor>x\<rfloor> < 2 ^ 53" using assms(3) by (simp add: nat_less_iff)
  then have "floorlog 2 (nat \<lfloor>x\<rfloor>) \<le> 53" by (intro floorlog_leI) simp_all
  with True show ?thesis by (simp add: ilog2_def)
next
  case False
  then have "1 \<le> \<lfloor>1 / x\<rfloor>" using assms(1) by (simp add: le_floor_iff)
  then have "(1 :: nat) \<le> nat \<lfloor>1 / x\<rfloor>" by linarith
  then have "2 ^ 0 \<le> nat \<lfloor>1 / x\<rfloor>" by (simp only: power_0)
  then have "Suc 0 \<le> floorlog 2 (nat \<lfloor>1 / x\<rfloor>)" by (intro floorlog_ge_SucI) simp_all
  with False show ?thesis by (simp add: ilog2_def Let_def)
qed

lemma round_double_nonneg: "0 \<le> x \<Longrightarrow> 0 \<le> round_double x"
  using pow2_pos [of "ilog2 \<bar>x\<bar> - 52"]
  by (auto simp: round_double_def Let_def round_half_even_nonneg sgn_if intro!: mult_nonneg_nonneg)

lemma round_double_le_int:
  assumes "0 < x" and "x \<le> of_int n" and "n < 2 ^ 53"
  shows "round_double x \<le> of_int n"
proof -
  define k where "k = nat (52 - ilog2 x)"
  have e: "ilog2 x \<le> 52" using assms by (rule ilog2_le_52)
  have u: "pow2 (ilog2 x - 52) = 1 / 2 ^ k"
    using e by (auto simp: pow2_def k_def)
  have "x / pow2 (ilog2 x - 52) = x * 2 ^ k" by (simp add: u)
  also have "\<dots> \<le> of_int n * 2 ^ k" using assms(2) by simp
  also have "\<dots> = of_int (n * 2 ^ k)" by simp
  finally have "round_half_even (x / pow2 (ilog2 x - 52)) \<le> n * 2 ^ k"
    by (rule round_half_even_le)
  then have "(of_int (round_half_even (x / pow2 (ilog2 x - 52))) :: rat) \<le> of_int (n * 2 ^ k)"
    by (simp only: of_int_le_iff)
  then have "of_int (round_half_even (x / pow2 (ilog2 x - 52))) * (1 / 2 ^ k)
      \<le> (of_int (n * 2 ^ k) :: rat) * (1 / 2 ^ k)"
    by (intro mult_right_mono) simp_all
  also have "(of_int (n * 2 ^ k) :: rat) * (1 / 2 ^ k) = of_int n" by simp
  finally show ?thesis using assms(1) by (simp add: round_double_def Let_def u)
qed

lemma round_double_of_int:
  assumes "0 \<le> n" and "n < 2 ^ 53"
  shows "round_double (of_int n) \<le> of_int n \<and> 0 \<le> round_double (of_int n)"
proof (cases "n = 0")
  case True
  then show ?thesis by (simp add: round_double_def)
next
  case False
  with assms have "(0 :: rat) < of_int n" by simp
  then have "round_double (of_int n) \<le> of_int n"
    using assms(2) by (intro round_double_le_int) simp_all
  moreover have "0 \<le> round_double (of_int n)"
    using assms(1) by (intro round_double_nonneg) simp
  ultimately show ?thesis by simp
qed

lemma compute_sched_limit_bounds:
  assumes "0 \<le> tot" and "tot < 2 ^ 53"
    and "compute_sched_limit tot buffer_ratio = Inr sched_limit"
  shows "0 \<le> sched_limit \<and> sched_limit \<le> tot"
proof -
  obtain c where c: "py_max (Finite 0) (py_min buffer_ratio float_0_8) = Finite c"
    and c0: "0 \<le> c" and c1: "c \<le> 3602879701896397 / 4503599627370496"
    using clamp_Finite [of buffer_ratio] by (auto split: pyfloat.splits)
  define f where "f = round_double (1 - c)"
  define a where "a = round_double (of_int tot)"
  have "0 < 1 - c" using c1 by simp
  moreover have "1 - c \<le> of_int 1" using c0 by simp
  ultimately have f1: "f \<le> 1" unfolding f_def
    using round_double_le_int [of "1 - c" 1] by simp
  have f0: "0 \<le> f" unfolding f_def using c1 by (intro round_double_nonneg) simp
  have a0: "0 \<le> a" and a1: "a \<le> of_int tot"
    using round_double_of_int [OF assms(1,2)] by (simp_all add: a_def)
  have af0: "0 \<le> a * f" using a0 f0 by simp
  have "a * f \<le> a * 1" using f1 a0 by (intro mult_left_mono)
  then have af1: "a * f \<le> of_int tot" using a1 by simp
  have r0: "0 \<le> round_double (a * f)" using af0 by (rule round_double_nonneg)
  have r1: "round_double (a * f) \<le> of_int tot"
  proof (cases "a * f = 0")
    case True
    then show ?thesis using assms(1) by (simp add: round_double_def)
  next
    case False
    with af0 have "0 < a * f" by linarith
    then show ?thesis using af1 assms(2) by (rule round_double_le_int)
  qed
  have "sched_limit = \<lfloor>round_double (a * f)\<rfloor>"
    using assms(3) c r0 by (simp add: compute_sched_limit_def float_of_int_def a_def f_def)
  then show ?thesis using r0 r1 by (simp add: floor_le_iff le_floor_iff)
qed

section \<open>Invariants of the placement loop\<close>

lemma total_available_nonneg: "0 \<le> total_available_of (build_segments tomorrow blocks)"
proof -
  have "0 \<le> (case seg of (s, e) \<Rightarrow> minutes_between s e)"
    if "seg \<in> set (build_segments tomorrow blocks)" for seg
    using build_segments_valid [OF that] by (cases seg) (simp add: minutes_between_def)
  then show ?thesis unfolding total_available_of_def by (intro sum_list_nonneg) auto
qed

lemma mset_map_fst_ordered_tasks:
  assumes "enrich todo tomorrow importance_threshold urgent_days = Inr enriched"
  shows "mset (map fst (ordered_tasks enriched k)) = mset todo"
proof -
  have "mset (map fst (ordered_tasks enriched k)) = image_mset fst (mset (ordered_tasks enriched k))"
    by simp
  also have "\<dots> = image_mset fst (mset enriched)" by (simp only: mset_ordered_tasks)
  also have "\<dots> = mset (map fst enriched)" by simp
  also have "\<dots> = mset todo" by (simp only: enrich_map_fst [OF assms])
  finally show ?thesis .
qed

lemma disjoint_segments_entries:
  assumes "segments_disjoint segments" and "k < length segments" and "k' < length segments"
    and "k < k'" and "within_segment (segments ! k) e" and "within_segment (segments ! k') e'"
  shows "non_overlapping e e'"
proof -
  have "snd (segments ! k) \<le> fst (segments ! k') \<or> snd (segments ! k') \<le> fst (segments ! k)"
    using assms(1-4) by (simp add: segments_disjoint_def sorted_wrt_iff_nth_less)
  then show ?thesis
    using assms(5,6) by (auto simp: within_segment_def non_overlapping_def)
qed

lemma place_task_inv:
  assumes inv: "placement_inv segments st"
    and dis: "segments_disjoint segments"
    and dur: "0 \<le> duration_min t"
    and st': "place_task segments sched_limit st (t, q, d) = Inr st'"
  shows "placement_inv segments st'"
proof -
  from inv have old: "\<And>e. e \<in> set (schedule st) \<Longrightarrow>
      \<exists>k. k < length segments \<and> k \<le> seg_idx st
         \<and> within_segment (segments ! k) e \<and> (k = seg_idx st \<longrightarrow> end_dt e \<le> cursor st)"
    and sw: "sorted_wrt non_overlapping (schedule st)"
    by (auto simp: placement_inv_def)
  from place_task_step [OF st'] consider
    (over) "schedule st' = schedule st" "seg_idx st \<le> seg_idx st'"
      "length segments \<le> seg_idx st' \<or> (seg_idx st' = seg_idx st \<and> cursor st' = cursor st)"
    | (placed) cur where "schedule st' = schedule st @ [new_entry cur (duration_min t) t q]"
      "seg_idx st \<le> seg_idx st'" "seg_idx st' < length segments"
      "seg_idx st' = seg_idx st \<longrightarrow> cursor st \<le> cur"
      "fst (segments ! seg_idx st') \<le> cur"
      "cur + duration_min t * 60 \<le> snd (segments ! seg_idx st')"
      "cursor st' = cur + duration_min t * 60"
    by blast
  then show ?thesis
  proof cases
    case over
    have "\<exists>k. k < length segments \<and> k \<le> seg_idx st'
         \<and> within_segment (segments ! k) e \<and> (k = seg_idx st' \<longrightarrow> end_dt e \<le> cursor st')"
      if "e \<in> set (schedule st)" for e
    proof -
      from old [OF that] obtain k where k: "k < length segments" "k \<le> seg_idx st"
        "within_segment (segments ! k) e" "k = seg_idx st \<longrightarrow> end_dt e \<le> cursor st"
        by blast
      have "k = seg_idx st' \<longrightarrow> end_dt e \<le> cursor st'" using k(1,4) over(3) by auto
      with k over(2) show ?thesis by (intro exI [of _ k]) simp
    qed
    with sw over(1) show ?thesis by (simp add: placement_inv_def)
  next
    case placed
    define e' where "e' = new_entry cur (duration_min t) t q"
    have e': "start e' = cur" "end_dt e' = cur + duration_min t * 60"
      by (simp_all add: e'_def new_entry_def)
    have w': "within_segment (segments ! seg_idx st') e'"
      using placed(5,6) e' by (simp add: within_segment_def)
    have a: "\<exists>k. k < length segments \<and> k \<le> seg_idx st'
         \<and> within_segment (segments ! k) e \<and> (k = seg_idx st' \<longrightarrow> end_dt e \<le> cursor st')"
      and b: "non_overlapping e e'"
      if "e \<in> set (schedule st)" for e
    proof -
      from old [OF that] obtain k where k: "k < length segments" "k \<le> seg_idx st"
        "within_segment (segments ! k) e" "k = seg_idx st \<longrightarrow> end_dt e \<le> cursor st"
        by blast
      have c: "k = seg_idx st' \<longrightarrow> end_dt e \<le> cur" using k(2,4) placed(2,4) by auto
      then have "k = seg_idx st' \<longrightarrow> end_dt e \<le> cursor st'" using placed(7) dur by auto
      with k placed(2) show "\<exists>k. k < length segments \<and> k \<le> seg_idx st'
         \<and> within_segment (segments ! k) e \<and> (k = seg_idx st' \<longrightarrow> end_dt e \<le> cursor st')"
        by (intro exI [of _ k]) simp
      show "non_overlapping e e'"
      proof (cases "k = seg_idx st'")
        case True
        with c e' show ?thesis by (simp add: non_overlapping_def)
      next
        case False
        with k(2) placed(2) have "k < seg_idx st'" by simp
        with dis k(1) placed(3) show ?thesis using k(3) w' by (rule disjoint_segments_entries)
      qed
    qed
    have "\<exists>k. k < length segments \<and> k \<le> seg_idx st'
         \<and> within_segment (segments ! k) e' \<and> (k = seg_idx st' \<longrightarrow> end_dt e' \<le> cursor st')"
      using placed(3,7) w' e' by (intro exI [of _ "seg_idx st'"]) simp
    moreover have "sorted_wrt non_overlapping (schedule st @ [e'])"
      using sw b by (simp add: sorted_wrt_append)
    ultimately show ?thesis using a placed(1) by (auto simp: placement_inv_def e'_def)
  qed
qed

lemma place_all_inv:
  assumes "placement_inv segments st" and "segments_disjoint segments"
    and "\<forall>x \<in> set xs. 0 \<le> duration_min (fst x)"
    and "place_all segments sched_limit st xs = Inr st'"
  shows "placement_inv segments st'"
  using assms
proof (induction xs arbitrary: st)
  case Nil
  then show ?case by simp
next
  case (Cons x xs)
  obtain t q d where x: "x = (t, q, d)" by (cases x)
  from Cons.prems(4) obtain st1 where
    st1: "place_task segments sched_limit st (t, q, d) = Inr st1"
    and rest: "place_all segments sched_limit st1 xs = Inr st'"
    unfolding place_all_Cons x by blast
  have "0 \<le> duration_min t" using Cons.prems(3) x by simp
  with Cons.prems(1,2) have "placement_inv segments st1" using st1 by (rule place_task_inv)
  then show ?case using Cons.prems(2) _ rest
    by (rule Cons.IH) (use Cons.prems(3) in simp)
qed

lemma initial_state_inv: "placement_inv segments (initial_state segments)"
  by (simp add: placement_inv_def initial_state_fields)

lemma place_all_within:
  assumes "\<forall>e \<in> set (schedule st). \<exists>k < length segments. within_segment (segments ! k) e"
    and "place_all segments sched_limit st xs = Inr st'"
  shows "\<forall>e \<in> set (schedule st'). \<exists>k < length segments. within_segment (segments ! k) e"
  using assms
proof (induction xs arbitrary: st)
  case Nil
  then show ?case by simp
next
  case (Cons x xs)
  obtain t q d where x: "x = (t, q, d)" by (cases x)
  from Cons.prems(2) obtain st1 where
    st1: "place_task segments sched_limit st (t, q, d) = Inr st1"
    and rest: "place_all segments sched_limit st1 xs = Inr st'"
    unfolding place_all_Cons x by blast
  from place_task_step [OF st1] consider
    (over) "schedule st1 = schedule st"
    | (placed) cur where "schedule st1 = schedule st @ [new_entry cur (duration_min t) t q]"
      "seg_idx st1 < length segments" "fst (segments ! seg_idx st1) \<le> cur"
      "cur + duration_min t * 60 \<le> snd (segments ! seg_idx st1)"
    by blast
  then have "\<forall>e \<in> set (schedule st1). \<exists>k < length segments. within_segment (segments ! k) e"
  proof cases
    case over
    with Cons.prems(1) show ?thesis by simp
  next
    case placed
    have "within_segment (segments ! seg_idx st1) (new_entry cur (duration_min t) t q)"
      using placed(3,4) by (simp add: within_segment_def new_entry_def)
    with placed(2) have "\<exists>k < length segments.
        within_segment (segments ! k) (new_entry cur (duration_min t) t q)" by blast
    with Cons.prems(1) placed(1) show ?thesis by simp
  qed
  then show ?case using rest by (rule Cons.IH)
qed

lemma place_all_seg_idx_mono:
  "place_all segments sched_limit st xs = Inr st' \<Longrightarrow> seg_idx st \<le> seg_idx st'"
proof (induction xs arbitrary: st)
  case Nil
  then show ?case by simp
next
  case (Cons x xs)
  obtain t q d where x: "x = (t, q, d)" by (cases x)
  from Cons.prems obtain st1 where
    st1: "place_task segments sched_limit st (t, q, d) = Inr st1"
    and rest: "place_all segments sched_limit st1 xs = Inr st'"
    unfolding place_all_Cons x by blast
  have "seg_idx st \<le> seg_idx st1" using place_task_step [OF st1] by blast
  also have "\<dots> \<le> seg_idx st'" using rest by (rule Cons.IH)
  finally show ?case .
qed

lemma place_task_exhausted:
  assumes "length segments \<le> seg_idx st"
  shows "place_task segments sched_limit st (t, q, d) = Inr (st\<lparr>overflow := overflow st @ [t]\<rparr>)"
  using assms by (simp add: place_task_def Let_def try_place_end)

lemma place_all_exhausted:
  assumes "length segments \<le> seg_idx st"
  shows "place_all segments sched_limit st xs = Inr (st\<lparr>overflow := overflow st @ map fst xs\<rparr>)"
  using assms
proof (induction xs arbitrary: st)
  case Nil
  show ?case by simp
next
  case (Cons x xs)
  obtain t q d where x: "x = (t, q, d)" by (cases x)
  have "place_all segments sched_limit st (x # xs)
      = place_all segments sched_limit (st\<lparr>overflow := overflow st @ [t]\<rparr>) xs"
    using Cons.prems by (simp add: x place_task_exhausted)
  also have "\<dots> = Inr (st\<lparr>overflow := overflow st @ [t]\<rparr>
      \<lparr>overflow := overflow (st\<lparr>overflow := overflow st @ [t]\<rparr>) @ map fst xs\<rparr>)"
    using Cons.prems by (intro Cons.IH) simp
  finally show ?case by (simp add: x)
qed

lemma place_all_new_entries:
  "place_all segments sched_limit st xs = Inr st' \<Longrightarrow>
   \<exists>es. schedule st' = schedule st @ es
     \<and> (\<forall>e \<in> set es. \<exists>k. seg_idx st \<le> k \<and> k < length segments
           \<and> within_segment (segments ! k) e)"
proof (induction xs arbitrary: st)
  case Nil
  then show ?case by simp
next
  case (Cons x xs)
  obtain t q d where x: "x = (t, q, d)" by (cases x)
  from Cons.prems obtain st1 where
    st1: "place_task segments sched_limit st (t, q, d) = Inr st1"
    and rest: "place_all segments sched_limit st1 xs = Inr st'"
    unfolding place_all_Cons x by blast
  from Cons.IH [OF rest] obtain es where es:
    "schedule st' = schedule st1 @ es"
    "\<forall>e \<in> set es. \<exists>k. seg_idx st1 \<le> k \<and> k < length segments \<and> within_segment (segments ! k) e"
    by blast
  have mono: "seg_idx st \<le> seg_idx st1" using place_task_step [OF st1] by blast
  have es': "\<forall>e \<in> set es. \<exists>k. seg_idx st \<le> k \<and> k < length segments
      \<and> within_segment (segments ! k) e"
    using es(2) mono by (meson le_trans)
  from place_task_step [OF st1] consider
    (over) "schedule st1 = schedule st"
    | (placed) cur where "schedule st1 = schedule st @ [new_entry cur (duration_min t) t q]"
      "seg_idx st1 < length segments" "fst (segments ! seg_idx st1) \<le> cur"
      "cur + duration_min t * 60 \<le> snd (segments ! seg_idx st1)"
    by blast
  then show ?case
  proof cases
    case over
    with es(1) es' show ?thesis by auto
  next
    case placed
    have "within_segment (segments ! seg_idx st1) (new_entry cur (duration_min t) t q)"
      using placed(3,4) by (simp add: within_segment_def new_entry_def)
    with mono placed(2) have "\<exists>k. seg_idx st \<le> k \<and> k < length segments
        \<and> within_segment (segments ! k) (new_entry cur (duration_min t) t q)" by blast
    with es' have "\<forall>e \<in> set (new_entry cur (duration_min t) t q # es).
        \<exists>k. seg_idx st \<le> k \<and> k < length segments \<and> within_segment (segments ! k) e"
      by simp
    moreover have "schedule st' = schedule st @ (new_entry cur (duration_min t) t q # es)"
      using es(1) placed(1) by simp
    ultimately show ?thesis by blast
  qed
qed

lemma chronological_next:
  "chronological segments \<Longrightarrow> si + 1 < length segments \<Longrightarrow>
   snd (segments ! si) \<le> fst (segments ! (si + 1))"
  by (simp add: chronological_def sorted_wrt_iff_nth_less)

lemma move_cursor_chrono:
  assumes chr: "chronological segments"
    and valid: "\<forall>seg \<in> set segments. fst seg < snd seg"
  shows "cursor_ok segments si cur \<longrightarrow> cur \<le> snd (move_cursor segments si cur)"
proof (induction si cur rule: move_cursor_induct2 [where segments = segments])
  case (End si cur)
  then show ?case by (simp add: move_cursor_end)
next
  case (Stop si cur)
  then show ?case by (simp add: move_cursor_stop seg_start_def)
next
  case (Next si cur)
  show ?case
  proof
    assume ok: "cursor_ok segments si cur"
    have s: "cur \<le> seg_start segments si cur" by (simp add: seg_start_def)
    have n: "cur \<le> next_cur segments si cur"
    proof (cases "si + 1 < length segments")
      case True
      then have "next_cur segments si cur = fst (segments ! (si + 1))" by (simp add: next_cur_def)
      moreover have "cur \<le> snd (segments ! si)" using ok Next(1) by (simp add: cursor_ok_def)
      ultimately show ?thesis using chronological_next [OF chr True] by simp
    next
      case False
      then show ?thesis using s by (simp add: next_cur_def)
    qed
    have "cursor_ok segments (si + 1) (next_cur segments si cur)"
    proof (cases "si + 1 < length segments")
      case True
      then have "segments ! (si + 1) \<in> set segments" by simp
      with valid have "fst (segments ! (si + 1)) < snd (segments ! (si + 1))" by blast
      with True show ?thesis by (simp add: cursor_ok_def next_cur_def)
    next
      case False
      then show ?thesis by (simp add: cursor_ok_def)
    qed
    with Next(3) have "next_cur segments si cur
        \<le> snd (move_cursor segments (si + 1) (next_cur segments si cur))" by blast
    with n show "cur \<le> snd (move_cursor segments si cur)"
      using Next(1,2) by (simp add: move_cursor_next)
  qed
qed

lemma try_place_chrono:
  assumes chr: "chronological segments"
    and valid: "\<forall>seg \<in> set segments. fst seg < snd seg"
  shows "cursor_ok segments si cur \<longrightarrow> cur \<le> fst (snd (try_place segments dur si cur))"
proof (induction si cur rule: try_place_induct2 [where segments = segments and dur = dur])
  case (End si cur)
  then show ?case by (simp add: try_place_end)
next
  case (Exhaust si cur si1 cur1)
  then show ?case
    using move_cursor_chrono [OF chr valid, of si cur] by (simp add: try_place_exhaust)
next
  case (Fit si cur si1 cur1)
  have "try_place segments dur si cur = (si1, cur1, True)" using Fit by (intro try_place_fit)
  then show ?case using move_cursor_chrono [OF chr valid, of si cur] Fit(2) by simp
next
  case (Skip si cur si1 cur1)
  show ?case
  proof
    assume ok: "cursor_ok segments si cur"
    have c1: "cur \<le> cur1" using move_cursor_chrono [OF chr valid, of si cur] ok Skip(2) by simp
    have w: "cur1 < snd (segments ! si1)" using move_cursor_within [OF Skip(2,3)] by simp
    have "cursor_ok segments (si1 + 1) cur1"
    proof (cases "si1 + 1 < length segments")
      case True
      then have "segments ! (si1 + 1) \<in> set segments" by simp
      with valid have "fst (segments ! (si1 + 1)) < snd (segments ! (si1 + 1))" by blast
      with w chronological_next [OF chr True] True show ?thesis by (simp add: cursor_ok_def)
    next
      case False
      then show ?thesis by (simp add: cursor_ok_def)
    qed
    with Skip(5) have "cur1 \<le> fst (snd (try_place segments dur (si1 + 1) cur1))" by blast
    moreover have "try_place segments dur si cur = try_place segments dur (si1 + 1) cur1"
      using Skip(1-4) by (intro try_place_skip)
    ultimately show "cur \<le> fst (snd (try_place segments dur si cur))" using c1 by simp
  qed
qed

lemma place_task_cursor_ok:
  assumes "cursor_ok segments (seg_idx st) (cursor st)"
    and "place_task segments sched_limit st (t, q, d) = Inr st'"
  shows "cursor_ok segments (seg_idx st') (cursor st')"
  using place_task_step [OF assms(2)] assms(1) by (auto simp: cursor_ok_def)

lemma place_task_chrono:
  assumes chr: "chronological segments"
    and valid: "\<forall>seg \<in> set segments. fst seg < snd seg"
    and ok: "cursor_ok segments (seg_idx st) (cursor st)"
    and dur: "0 \<le> duration_min t"
    and st': "place_task segments sched_limit st (t, q, d) = Inr st'"
  shows "cursor st \<le> cursor st'
    \<and> (\<forall>e \<in> set (drop (length (schedule st)) (schedule st')). cursor st \<le> start e)"
proof (cases "sched_limit < used st + duration_min t")
  case True
  with st' have "st' = st\<lparr>overflow := overflow st @ [t]\<rparr>"
    by (simp add: place_task_def Let_def)
  then show ?thesis by simp
next
  case False
  obtain si' cur' placed where tp:
    "try_place segments (duration_min t) (seg_idx st) (cursor st) = (si', cur', placed)"
    by (cases "try_place segments (duration_min t) (seg_idx st) (cursor st)")
  have c: "cursor st \<le> cur'"
    using try_place_chrono [OF chr valid, of "seg_idx st" "cursor st" "duration_min t"] ok tp
    by simp
  show ?thesis
  proof (cases placed)
    case True
    with False st' tp obtain end_t where
      e: "datetime_add_minutes cur' (duration_min t) = Inr end_t"
      and s: "st' = st\<lparr>used := used st + duration_min t, seg_idx := si', cursor := end_t,
        schedule := schedule st @ [new_entry cur' (duration_min t) t q]\<rparr>"
      by (auto simp: place_task_def Let_def split: sum.splits)
    with c dur datetime_add_minutes_Inr [OF e] show ?thesis by (simp add: new_entry_def)
  next
    case placed: False
    with False st' tp
    have "st' = st\<lparr>seg_idx := si', cursor := cur', overflow := overflow st @ [t]\<rparr>"
      by (simp add: place_task_def Let_def)
    with c show ?thesis by simp
  qed
qed

lemma place_all_chrono:
  assumes chr: "chronological segments"
    and valid: "\<forall>seg \<in> set segments. fst seg < snd seg"
  shows "cursor_ok segments (seg_idx st) (cursor st) \<Longrightarrow>
     \<forall>x \<in> set xs. 0 \<le> duration_min (fst x) \<Longrightarrow>
     place_all segments sched_limit st xs = Inr st2 \<Longrightarrow>
     cursor st \<le> cursor st2
     \<and> (\<forall>e \<in> set (drop (length (schedule st)) (schedule st2)). cursor st \<le> start e)"
proof (induction xs arbitrary: st)
  case Nil
  then show ?case by simp
next
  case (Cons x xs)
  obtain t q d where x: "x = (t, q, d)" by (cases x)
  from Cons.prems(3) obtain st1 where
    st1: "place_task segments sched_limit st (t, q, d) = Inr st1"
    and rest: "place_all segments sched_limit st1 xs = Inr st2"
    unfolding place_all_Cons x by blast
  have dur: "0 \<le> duration_min t" using Cons.prems(2) x by simp
  have ok1: "cursor_ok segments (seg_idx st1) (cursor st1)"
    using Cons.prems(1) st1 by (rule place_task_cursor_ok)
  from place_task_chrono [OF chr valid Cons.prems(1) dur st1]
  have a: "cursor st \<le> cursor st1"
    and b: "\<forall>e \<in> set (drop (length (schedule st)) (schedule st1)). cursor st \<le> start e"
    by simp_all
  from Cons.IH [OF ok1 _ rest] Cons.prems(2)
  have c: "cursor st1 \<le> cursor st2"
    and d: "\<forall>e \<in> set (drop (length (schedule st1)) (schedule st2)). cursor st1 \<le> start e"
    by simp_all
  obtain es1 where es1: "schedule st1 = schedule st @ es1"
    using place_task_step [OF st1] by auto
  obtain es2 where es2: "schedule st2 = schedule st1 @ es2"
    using place_all_new_entries [OF rest] by auto
  have "\<forall>e \<in> set (es1 @ es2). cursor st \<le> start e"
    using a b d es1 es2 by auto
  then have "\<forall>e \<in> set (drop (length (schedule st)) (schedule st2)). cursor st \<le> start e"
    using es1 es2 by simp
  then show ?case using a c by simp
qed

lemma initial_state_cursor_ok:
  "cursor_ok segments (seg_idx (initial_state segments)) (cursor (initial_state segments))"
proof -
  obtain si cur where m: "move_cursor segments 0 (fst (segments ! 0)) = (si, cur)"
    by (cases "move_cursor segments 0 (fst (segments ! 0))")
  then have "si < length segments \<longrightarrow> cur \<le> snd (segments ! si)"
    using move_cursor_within [OF m] by auto
  with m show ?thesis by (simp add: initial_state_def cursor_ok_def)
qed

lemma place_all_cursor_ok:
  "cursor_ok segments (seg_idx st) (cursor st) \<Longrightarrow>
   place_all segments sched_limit st xs = Inr st' \<Longrightarrow>
   cursor_ok segments (seg_idx st') (cursor st')"
proof (induction xs arbitrary: st)
  case Nil
  then show ?case by simp
next
  case (Cons x xs)
  obtain t q d where x: "x = (t, q, d)" by (cases x)
  from Cons.prems(2) obtain st1 where
    st1: "place_task segments sched_limit st (t, q, d) = Inr st1"
    and rest: "place_all segments sched_limit st1 xs = Inr st'"
    unfolding place_all_Cons x by blast
  have "cursor_ok segments (seg_idx st1) (cursor st1)"
    using Cons.prems(1) st1 by (rule place_task_cursor_ok)
  then show ?case using rest by (rule Cons.IH)
qed

text \<open>
  The loop does not raise on tasks of non-negative duration when every segment lies within
  the calendar: a task that fits ends within its segment.
\<close>

lemma place_task_returns:
  assumes cal: "\<forall>seg \<in> set segments. 86400 \<le> fst seg \<and> snd seg < 3652060 * 86400"
    and dur: "0 \<le> duration_min t"
  shows "\<exists>st'. place_task segments sched_limit st (t, q, d) = Inr st'"
proof (cases "sched_limit < used st + duration_min t")
  case True
  then show ?thesis by (simp add: place_task_def Let_def)
next
  case False
  obtain si' cur' placed where tp:
    "try_place segments (duration_min t) (seg_idx st) (cursor st) = (si', cur', placed)"
    by (cases "try_place segments (duration_min t) (seg_idx st) (cursor st)")
  note props = try_place_props [of segments "duration_min t" "seg_idx st" "cursor st" si' cur' placed,
      rule_format, OF tp]
  show ?thesis
  proof (cases placed)
    case True
    with props have lt: "si' < length segments" and lo: "fst (segments ! si') \<le> cur'"
      and fit: "duration_min t \<le> minutes_between cur' (snd (segments ! si'))"
      by simp_all
    have hi: "cur' + duration_min t * 60 \<le> snd (segments ! si')"
      using fit by (rule minutes_fit)
    from lt have "segments ! si' \<in> set segments" by simp
    with cal have c: "86400 \<le> fst (segments ! si')" "snd (segments ! si') < 3652060 * 86400"
      by blast+
    have d: "0 \<le> duration_min t div 1440" "duration_min t div 1440 \<le> 999999999"
      using dur hi lo c by simp_all
    have "datetime_add_minutes cur' (duration_min t) = Inr (cur' + duration_min t * 60)"
      using d dur hi lo c by (simp add: datetime_add_minutes_def)
    with True False tp show ?thesis by (simp add: place_task_def Let_def)
  next
    case placed: False
    with False tp show ?thesis by (simp add: place_task_def Let_def)
  qed
qed

lemma place_all_returns:
  assumes "\<forall>seg \<in> set segments. 86400 \<le> fst seg \<and> snd seg < 3652060 * 86400"
    and "\<forall>x \<in> set xs. 0 \<le> duration_min (fst x)"
  shows "\<exists>st'. place_all segments sched_limit st xs = Inr st'"
  using assms(2)
proof (induction xs arbitrary: st)
  case Nil
  show ?case by simp
next
  case (Cons x xs)
  obtain t q d where x: "x = (t, q, d)" by (cases x)
  have "0 \<le> duration_min t" using Cons.prems x by simp
  with assms(1) obtain st1 where "place_task segments sched_limit st (t, q, d) = Inr st1"
    using place_task_returns by blast
  moreover obtain st' where "place_all segments sched_limit st1 xs = Inr st'"
    using Cons.IH Cons.prems by auto
  ultimately show ?case using x by simp
qed

lemma build_segments_in_calendar:
  assumes "1 \<le> tomorrow" and "tomorrow \<le> 3652059"
    and "\<forall>(s_t, e_t) \<in> set blocks. hour e_t < 24 \<and> minute e_t < 60"
  shows "\<forall>seg \<in> set (build_segments tomorrow blocks).
           86400 \<le> fst seg \<and> snd seg < 3652060 * 86400"
proof
  fix seg assume "seg \<in> set (build_segments tomorrow blocks)"
  then obtain s_t e_t where b: "(s_t, e_t) \<in> set blocks"
    and seg: "seg = (dt_on tomorrow s_t, dt_on tomorrow e_t)"
    by (auto simp: build_segments_eq)
  from b assms(3) have e: "hour e_t < 24" "minute e_t < 60" by auto
  have "86400 \<le> dt_on tomorrow s_t" using assms(1) by (simp add: dt_on_def)
  moreover have "dt_on tomorrow e_t < 3652060 * 86400"
    using assms(2) e by (simp add: dt_on_def)
  ultimately show "86400 \<le> fst seg \<and> snd seg < 3652060 * 86400" using seg by simp
qed

section \<open>The ordering policy\<close>

lemma enrich_elems:
  "enrich ts tomorrow thr ud = Inr enriched \<Longrightarrow>
   \<forall>x \<in> set enriched. snd (snd x) = due_key (fst x)
      \<and> compute_quadrant (fst x) tomorrow thr ud = Inr (fst (snd x))"
  by (induction ts arbitrary: enriched) (auto split: sum.splits)

lemma enrich_list_all2:
  "enrich ts tomorrow thr ud = Inr enriched \<Longrightarrow>
   list_all2 (\<lambda>t x. fst x = t \<and> compute_quadrant t tomorrow thr ud = Inr (fst (snd x)))
     ts enriched"
  by (induction ts arbitrary: enriched) (auto split: sum.splits)

lemma stably_sorted_sort_key:
  assumes "\<forall>x \<in> set xs. key' x = key x"
  shows "stably_sorted key' xs (sort_key key xs)"
proof -
  have s: "\<forall>x \<in> set (sort_key key xs). key' x = key x" using assms by simp
  have "map key' (sort_key key xs) = map key (sort_key key xs)"
    using s by (intro map_cong refl) blast
  then have a: "sorted (map key' (sort_key key xs))" by (simp only: sorted_sort_key)
  have b: "filter (\<lambda>x. key' x = k) (sort_key key xs) = filter (\<lambda>x. key' x = k) xs" for k
  proof -
    have "filter (\<lambda>x. key' x = k) (sort_key key xs) = filter (\<lambda>x. key x = k) (sort_key key xs)"
      using s by (intro filter_cong refl) simp
    also have "\<dots> = filter (\<lambda>x. key x = k) xs" by (rule sort_key_stable)
    also have "\<dots> = filter (\<lambda>x. key' x = k) xs"
      using assms by (intro filter_cong refl) simp
    finally show ?thesis .
  qed
  from a b show ?thesis by (simp add: stably_sorted_def)
qed

lemma bucket_subset: "set (bucket q0 enriched) \<subseteq> set enriched"
  by (auto simp: bucket_def)

lemma stably_sorted_due_first:
  assumes "enrich ts tomorrow thr ud = Inr enriched"
  shows "stably_sorted by_due_then_importance (bucket q0 enriched)
           (sort_key key_due_first (bucket q0 enriched))"
proof (rule stably_sorted_sort_key, rule ballI)
  fix x assume "x \<in> set (bucket q0 enriched)"
  then have "snd (snd x) = due_key (fst x)"
    using enrich_elems [OF assms] bucket_subset by blast
  then show "by_due_then_importance x = key_due_first x"
    by (cases x) (simp add: by_due_then_importance_def key_due_first_def)
qed

lemma stably_sorted_importance_first:
  assumes "enrich ts tomorrow thr ud = Inr enriched"
  shows "stably_sorted by_importance_then_due (bucket q0 enriched)
           (sort_key key_importance_first (bucket q0 enriched))"
proof (rule stably_sorted_sort_key, rule ballI)
  fix x assume "x \<in> set (bucket q0 enriched)"
  then have "snd (snd x) = due_key (fst x)"
    using enrich_elems [OF assms] bucket_subset by blast
  then show "by_importance_then_due x = key_importance_first x"
    by (cases x) (simp add: by_importance_then_due_def key_importance_first_def)
qed

lemma ordered_tasks_unfold:
  "ordered_tasks enriched k =
     sort_key key_due_first (bucket Q1 enriched)
     @ take (nat (max 0 k)) (sort_key key_due_first (bucket Q2 enriched))
     @ drop (nat (max 0 k)) (sort_key key_due_first (bucket Q2 enriched))
     @ sort_key key_due_first (bucket Q3 enriched)
     @ sort_key key_importance_first (bucket Q4 enriched)"
  unfolding ordered_tasks_def Let_def by (rule refl)

lemma make_meta_fields:
  "make_meta a b c ''total_available_min'' = Some a"
  "make_meta a b c ''sched_limit_min'' = Some b"
  "make_meta a b c ''used_min'' = Some c"
  by (simp_all add: make_meta_def)

lemma dom_make_meta:
  "dom (make_meta a b c) = {''total_available_min'', ''sched_limit_min'', ''used_min''}"
  by (simp add: make_meta_def insert_commute)

section \<open>Claims about the classifier\<close>

text \<open>
  Claim C3, as amended.  Whenever the task has no due date, or the urgency limit
  \<open>tomorrow + max (urgent_days - 1) 0\<close> days is a date Python can represent (ordinal 1 to
  3652059, the last being 9999-12-31), \<^verbatim>\<open>compute_quadrant\<close> returns exactly one
  label, by the truth table on \<open>important = (importance_threshold \<le> importance)\<close> and
  \<open>urgent = (due present and due \<le> the limit)\<close>; a task with no due date is never urgent.
\<close>

theorem compute_quadrant_truth_table:
  assumes "due t = None \<or>
     (max (urgent_days - 1) 0 \<le> 999999999 \<and> 1 \<le> tomorrow + max (urgent_days - 1) 0
      \<and> tomorrow + max (urgent_days - 1) 0 \<le> 3652059)"
  shows "compute_quadrant t tomorrow importance_threshold urgent_days =
     Inr (let important = (importance_threshold \<le> importance t);
              urgent = (case due t of None \<Rightarrow> False
                        | Some d \<Rightarrow> d \<le> tomorrow + max (urgent_days - 1) 0)
          in if important then (if urgent then Q1 else Q2)
             else (if urgent then Q3 else Q4))"
  using assms
  by (cases "due t") (auto simp: compute_quadrant_def date_add_days_def quadrant_of_def Let_def)

text \<open>The truth table at one task per quadrant, with the default parameters.\<close>

theorem compute_quadrant_truth_table_witness:
  "(due (mk_task ''a'' 30 5 (Some 739000)) = None \<or>
     (max (1 - 1) 0 \<le> (999999999 :: int) \<and> (1 :: int) \<le> 739000 + max (1 - 1) 0
      \<and> 739000 + max (1 - 1) 0 \<le> (3652059 :: int)))
   \<and> compute_quadrant (mk_task ''a'' 30 5 (Some 739000)) 739000 4 1 = Inr Q1
   \<and> compute_quadrant (mk_task ''b'' 30 5 None) 739000 4 1 = Inr Q2
   \<and> compute_quadrant (mk_task ''c'' 30 3 (Some 739000)) 739000 4 1 = Inr Q3
   \<and> compute_quadrant (mk_task ''d'' 30 3 (Some 739001)) 739000 4 1 = Inr Q4"
  using compute_quadrant_truth_table [of "mk_task ''a'' 30 5 (Some 739000)" 1 739000 4]
    compute_quadrant_truth_table [of "mk_task ''b'' 30 5 None" 1 739000 4]
    compute_quadrant_truth_table [of "mk_task ''c'' 30 3 (Some 739000)" 1 739000 4]
    compute_quadrant_truth_table [of "mk_task ''d'' 30 3 (Some 739001)" 1 739000 4]
  by (simp add: mk_task_def)

text \<open>
  Claim C3 as stated fails: with a due date present and an urgency window that reaches beyond
  the year 9999, the date addition raises and no label is returned.
\<close>

theorem compute_quadrant_raises_counterexample:
  "compute_quadrant (mk_task ''a'' 30 5 (Some 739000)) 739000 4 3000000 = Inl OverflowError"
  by (simp add: compute_quadrant_def date_add_days_def mk_task_def)

section \<open>Claims about the generator\<close>

text \<open>
  Claim C8.  The result of \<^verbatim>\<open>generate_schedule\<close> does not depend on
  \<^verbatim>\<open>ensure_q2\<close>: the first \<open>max 0 k\<close> elements of the sorted Q2 bucket followed
  by the rest are the bucket itself, so the placement order is Q1, Q2, Q3, Q4 for every \<open>k\<close>.
\<close>

theorem generate_schedule_ensure_q2_irrelevant:
  "generate_schedule tasks tomorrow blocks importance_threshold urgent_days buffer_ratio k
   = generate_schedule tasks tomorrow blocks importance_threshold urgent_days buffer_ratio k'"
  unfolding generate_schedule_def ordered_tasks_ensure_q2 by (rule refl)

text \<open>
  Claim C10.  Past the two early returns (some todo task and some valid segment), the
  returned quadrant map has exactly the four labels as keys; each key holds the todo tasks
  of that quadrant in input order, and a quadrant without tasks holds the empty list.
\<close>

theorem quad_map_has_all_four_keys:
  assumes "filter (\<lambda>t. status t = ''todo'') tasks \<noteq> []"
    and "build_segments tomorrow blocks \<noteq> []"
    and "generate_schedule tasks tomorrow blocks importance_threshold urgent_days buffer_ratio
           ensure_q2 = Inr (sch, quad_map, meta, ov)"
  shows "dom quad_map = {Q1, Q2, Q3, Q4}
    \<and> (\<forall>q. quad_map q = Some (filter
              (\<lambda>t. compute_quadrant t tomorrow importance_threshold urgent_days = Inr q)
              (filter (\<lambda>t. status t = ''todo'') tasks)))
    \<and> (\<forall>q. (\<forall>t \<in> set (filter (\<lambda>t. status t = ''todo'') tasks).
                compute_quadrant t tomorrow importance_threshold urgent_days \<noteq> Inr q)
             \<longrightarrow> quad_map q = Some [])"
proof -
  define todo where "todo = filter (\<lambda>t. status t = ''todo'') tasks"
  from assms obtain enriched where
    en: "enrich todo tomorrow importance_threshold urgent_days = Inr enriched"
    and qm: "quad_map = (\<lambda>q. Some (map fst (bucket q enriched)))"
    by (auto simp: generate_schedule_def Let_def todo_def fill_empty_quad_map split: sum.splits)
  have key: "quad_map q = Some (filter
      (\<lambda>t. compute_quadrant t tomorrow importance_threshold urgent_days = Inr q) todo)" for q
    using enrich_bucket [OF en] qm by simp
  have "dom quad_map = UNIV" using qm by auto
  moreover have "(UNIV :: quadrant set) = {Q1, Q2, Q3, Q4}"
  proof -
    have "q \<in> {Q1, Q2, Q3, Q4}" for q by (cases q) simp_all
    then show ?thesis by blast
  qed
  moreover have "quad_map q = Some []"
    if "\<forall>t \<in> set todo. compute_quadrant t tomorrow importance_threshold urgent_days \<noteq> Inr q"
    for q
    using that key [of q] by (simp add: filter_empty_conv [THEN iffD2])
  ultimately show ?thesis using key unfolding todo_def by simp
qed

text \<open>A single important task without due date: three quadrants hold the empty list.\<close>

theorem quad_map_has_all_four_keys_witness:
  "\<exists>quad_map meta.
     generate_schedule [mk_task ''a'' 30 5 None] 739000 [(clock 9 0, clock 10 0)] 4 1
       BUFFER_RATIO 1
     = Inr ([new_entry 63849632400 30 (mk_task ''a'' 30 5 None) Q2], quad_map, meta, [])
     \<and> dom quad_map = {Q1, Q2, Q3, Q4}
     \<and> quad_map Q1 = Some [] \<and> quad_map Q3 = Some [] \<and> quad_map Q4 = Some []"
proof -
  have "view_result (generate_schedule [mk_task ''a'' 30 5 None] 739000
       [(clock 9 0, clock 10 0)] 4 1 BUFFER_RATIO 1)
     = Inr ([new_entry 63849632400 30 (mk_task ''a'' 30 5 None) Q2],
            [Some [], Some [mk_task ''a'' 30 5 None], Some [], Some []],
            [Some 60, Some 48, Some 30], [])"
    by code_simp
  then obtain quad_map meta where g:
    "generate_schedule [mk_task ''a'' 30 5 None] 739000 [(clock 9 0, clock 10 0)] 4 1
       BUFFER_RATIO 1
     = Inr ([new_entry 63849632400 30 (mk_task ''a'' 30 5 None) Q2], quad_map, meta, [])"
    by (auto simp: view_result_def split: sum.splits prod.splits)
  have t: "filter (\<lambda>t. status t = ''todo'') [mk_task ''a'' 30 5 None] \<noteq> []"
    by (simp add: mk_task_def)
  have s: "build_segments 739000 [(clock 9 0, clock 10 0)] \<noteq> []"
    by (simp add: dt_on_def clock_def)
  have q: "compute_quadrant (mk_task ''a'' 30 5 None) 739000 4 1 = Inr Q2"
    by (simp add: compute_quadrant_def quadrant_of_def mk_task_def)
  from quad_map_has_all_four_keys [OF t s g] q
  have "dom quad_map = {Q1, Q2, Q3, Q4}
     \<and> quad_map Q1 = Some [] \<and> quad_map Q3 = Some [] \<and> quad_map Q4 = Some []"
    by (simp add: mk_task_def)
  with g show ?thesis by blast
qed

text \<open>
  Claim C1, as amended.  Whenever \<^verbatim>\<open>generate_schedule\<close> returns, the schedule and the
  overflow together hold every todo task exactly once: the schedule entries are the entries
  of a list \<open>placed\<close> of tasks, and \<open>placed\<close> and the overflow together are the todo tasks
  as a multiset, so \<open>length sch + length ov\<close> is the number of todo tasks.  When there is no
  todo task or at least one valid segment, the value lists of the quadrant map together are
  exactly the todo tasks, none twice and none missing.
\<close>

theorem generate_schedule_partition:
  assumes "generate_schedule tasks tomorrow blocks importance_threshold urgent_days buffer_ratio
             ensure_q2 = Inr (sch, quad_map, meta, ov)"
  shows "length sch + length ov = length (filter (\<lambda>t. status t = ''todo'') tasks)
    \<and> (\<exists>placed. list_all2 entry_for placed sch
          \<and> mset placed + mset ov = mset (filter (\<lambda>t. status t = ''todo'') tasks))
    \<and> (filter (\<lambda>t. status t = ''todo'') tasks = [] \<or> build_segments tomorrow blocks \<noteq> []
         \<longrightarrow> mset (quad_map_tasks quad_map) = mset (filter (\<lambda>t. status t = ''todo'') tasks))"
proof -
  define todo where "todo = filter (\<lambda>t. status t = ''todo'') tasks"
  define segs where "segs = build_segments tomorrow blocks"
  have gen: "generate_schedule tasks tomorrow blocks importance_threshold urgent_days
      buffer_ratio ensure_q2 = Inr (sch, quad_map, meta, ov)" by (rule assms)
  have "length sch + length ov = length todo
    \<and> (\<exists>placed. list_all2 entry_for placed sch \<and> mset placed + mset ov = mset todo)
    \<and> (todo = [] \<or> segs \<noteq> [] \<longrightarrow> mset (quad_map_tasks quad_map) = mset todo)"
  proof (cases "todo = []")
    case True
    with gen have "sch = [] \<and> ov = [] \<and> quad_map = Map.empty"
      by (simp add: generate_schedule_def todo_def)
    with True show ?thesis by (simp add: quad_map_tasks_def)
  next
    case todo: False
    show ?thesis
    proof (cases "segs = []")
      case True
      with gen todo have "sch = [] \<and> ov = todo"
        by (simp add: generate_schedule_def todo_def segs_def Let_def)
      with True todo show ?thesis by simp
    next
      case False
      from generate_schedule_main [OF todo [unfolded todo_def] False [unfolded segs_def] gen]
      obtain sched_limit enriched final where
        en: "enrich todo tomorrow importance_threshold urgent_days = Inr enriched"
        and pa: "place_all segs sched_limit (initial_state segs)
                   (ordered_tasks enriched ensure_q2) = Inr final"
        and sch: "sch = schedule final"
        and ov: "ov = overflow final"
        and qm: "quad_map = (\<lambda>q. Some (map fst (bucket q enriched)))"
        unfolding todo_def segs_def by blast
      from place_all_accounting [OF pa]
      obtain placed where p: "list_all2 entry_for placed sch"
        and m: "mset placed + mset ov = mset (map fst (ordered_tasks enriched ensure_q2))"
        using sch ov initial_state_fields [of segs] by auto
      have "mset (map fst (ordered_tasks enriched ensure_q2)) = mset (map fst enriched)"
        using arg_cong [OF mset_ordered_tasks [of enriched ensure_q2], of "image_mset fst"]
        by simp
      with m have m': "mset placed + mset ov = mset todo"
        using enrich_map_fst [OF en] by simp
      have "length placed = length sch" using p by (rule list_all2_lengthD)
      moreover have "size (mset placed + mset ov) = size (mset todo)" using m' by simp
      ultimately have "length sch + length ov = length todo" by simp
      moreover have "mset (quad_map_tasks quad_map) = mset todo"
        using quad_map_tasks_buckets [of enriched] qm enrich_map_fst [OF en] by simp
      ultimately show ?thesis using p m' by blast
    qed
  qed
  then show ?thesis unfolding todo_def segs_def .
qed

text \<open>One task placed and one in the overflow, on a single hour of free time.\<close>

theorem generate_schedule_partition_witness:
  "\<exists>quad_map meta.
     generate_schedule [mk_task ''a'' 30 5 None, mk_task ''b'' 45 2 None] 739000
       [(clock 9 0, clock 10 0)] 4 1 BUFFER_RATIO 1
     = Inr ([new_entry 63849632400 30 (mk_task ''a'' 30 5 None) Q2], quad_map, meta,
            [mk_task ''b'' 45 2 None])
     \<and> mset (quad_map_tasks quad_map) = mset [mk_task ''a'' 30 5 None, mk_task ''b'' 45 2 None]"
proof -
  have "view_result (generate_schedule [mk_task ''a'' 30 5 None, mk_task ''b'' 45 2 None] 739000
       [(clock 9 0, clock 10 0)] 4 1 BUFFER_RATIO 1)
     = Inr ([new_entry 63849632400 30 (mk_task ''a'' 30 5 None) Q2],
            [Some [], Some [mk_task ''a'' 30 5 None], Some [], Some [mk_task ''b'' 45 2 None]],
            [Some 60, Some 48, Some 30], [mk_task ''b'' 45 2 None])"
    by code_simp
  then obtain quad_map meta where g:
    "generate_schedule [mk_task ''a'' 30 5 None, mk_task ''b'' 45 2 None] 739000
       [(clock 9 0, clock 10 0)] 4 1 BUFFER_RATIO 1
     = Inr ([new_entry 63849632400 30 (mk_task ''a'' 30 5 None) Q2], quad_map, meta,
            [mk_task ''b'' 45 2 None])"
    by (auto simp: view_result_def split: sum.splits prod.splits)
  have "build_segments 739000 [(clock 9 0, clock 10 0)] \<noteq> []"
    by (simp add: dt_on_def clock_def)
  with generate_schedule_partition [OF g]
  have "mset (quad_map_tasks quad_map)
      = mset (filter (\<lambda>t. status t = ''todo'') [mk_task ''a'' 30 5 None, mk_task ''b'' 45 2 None])"
    by blast
  then have "mset (quad_map_tasks quad_map)
      = mset [mk_task ''a'' 30 5 None, mk_task ''b'' 45 2 None]"
    by (simp add: mk_task_def)
  with g show ?thesis by blast
qed

text \<open>
  Claim C1 as stated fails where a todo task meets no valid segment: the early return gives
  the empty dictionary as quadrant map, whose value lists hold no task.
\<close>

theorem quad_map_empty_counterexample:
  "generate_schedule [mk_task ''a'' 30 5 None] 739000 [] 4 1 BUFFER_RATIO 1
     = Inr ([], Map.empty, Map.empty, [mk_task ''a'' 30 5 None])
   \<and> filter (\<lambda>t. status t = ''todo'') [mk_task ''a'' 30 5 None] = [mk_task ''a'' 30 5 None]
   \<and> quad_map_tasks Map.empty = []"
  by (simp add: generate_schedule_def mk_task_def quad_map_tasks_def)

text \<open>
  Claim C7, as amended.  With no todo task \<^verbatim>\<open>generate_schedule\<close> returns four empty
  results, whatever the blocks and parameters.  With a todo task and every block ending at or
  before its start, it returns the empty schedule, the two empty dictionaries and every todo
  task in the overflow.  It raises on no input whose todo tasks have non-negative durations
  and either no due date or an urgency limit \<open>tomorrow + max (urgent_days - 1) 0\<close> days
  that is a date Python can represent; so never on a well-formed task list with the default
  \<open>urgent_days = 1\<close>.  Here \<open>tomorrow\<close> is the ordinal of a date and the end of every
  block a time of day, as every value of the Python types is.
\<close>

theorem generate_schedule_never_raises:
  "(filter (\<lambda>t. status t = ''todo'') tasks = [] \<longrightarrow>
      generate_schedule tasks tomorrow blocks importance_threshold urgent_days buffer_ratio
        ensure_q2 = Inr ([], Map.empty, Map.empty, []))
   \<and> (filter (\<lambda>t. status t = ''todo'') tasks \<noteq> []
        \<and> (\<forall>(s_t, e_t) \<in> set blocks. dt_on tomorrow e_t \<le> dt_on tomorrow s_t) \<longrightarrow>
      generate_schedule tasks tomorrow blocks importance_threshold urgent_days buffer_ratio
        ensure_q2 = Inr ([], Map.empty, Map.empty, filter (\<lambda>t. status t = ''todo'') tasks))
   \<and> ((\<forall>t \<in> set (filter (\<lambda>t. status t = ''todo'') tasks). 0 \<le> duration_min t)
        \<and> 1 \<le> tomorrow \<and> tomorrow \<le> 3652059
        \<and> (\<forall>(s_t, e_t) \<in> set blocks. hour e_t < 24 \<and> minute e_t < 60)
        \<and> ((\<forall>t \<in> set (filter (\<lambda>t. status t = ''todo'') tasks). due t = None)
            \<or> (max (urgent_days - 1) 0 \<le> 999999999
                \<and> 1 \<le> tomorrow + max (urgent_days - 1) 0
                \<and> tomorrow + max (urgent_days - 1) 0 \<le> 3652059)) \<longrightarrow>
      (\<exists>r. generate_schedule tasks tomorrow blocks importance_threshold urgent_days
              buffer_ratio ensure_q2 = Inr r))"
proof (intro conjI impI)
  assume "filter (\<lambda>t. status t = ''todo'') tasks = []"
  then show "generate_schedule tasks tomorrow blocks importance_threshold urgent_days
      buffer_ratio ensure_q2 = Inr ([], Map.empty, Map.empty, [])"
    by (simp add: generate_schedule_def)
next
  assume a: "filter (\<lambda>t. status t = ''todo'') tasks \<noteq> []
    \<and> (\<forall>(s_t, e_t) \<in> set blocks. dt_on tomorrow e_t \<le> dt_on tomorrow s_t)"
  then have "filter (\<lambda>(s_t, e_t). dt_on tomorrow s_t < dt_on tomorrow e_t) blocks = []"
    by (auto simp: filter_empty_conv)
  then have "build_segments tomorrow blocks = []" by (simp add: build_segments_eq)
  with a show "generate_schedule tasks tomorrow blocks importance_threshold urgent_days
      buffer_ratio ensure_q2 = Inr ([], Map.empty, Map.empty, filter (\<lambda>t. status t = ''todo'') tasks)"
    by (simp add: generate_schedule_def Let_def)
next
  define todo where "todo = filter (\<lambda>t. status t = ''todo'') tasks"
  define segs where "segs = build_segments tomorrow blocks"
  assume "(\<forall>t \<in> set (filter (\<lambda>t. status t = ''todo'') tasks). 0 \<le> duration_min t)
        \<and> 1 \<le> tomorrow \<and> tomorrow \<le> 3652059
        \<and> (\<forall>(s_t, e_t) \<in> set blocks. hour e_t < 24 \<and> minute e_t < 60)
        \<and> ((\<forall>t \<in> set (filter (\<lambda>t. status t = ''todo'') tasks). due t = None)
            \<or> (max (urgent_days - 1) 0 \<le> 999999999
                \<and> 1 \<le> tomorrow + max (urgent_days - 1) 0
                \<and> tomorrow + max (urgent_days - 1) 0 \<le> 3652059))"
  then have dur: "\<forall>t \<in> set todo. 0 \<le> duration_min t"
    and day: "1 \<le> tomorrow" "tomorrow \<le> 3652059"
    and times: "\<forall>(s_t, e_t) \<in> set blocks. hour e_t < 24 \<and> minute e_t < 60"
    and a: "(\<forall>t \<in> set todo. due t = None)
        \<or> (max (urgent_days - 1) 0 \<le> 999999999 \<and> 1 \<le> tomorrow + max (urgent_days - 1) 0
            \<and> tomorrow + max (urgent_days - 1) 0 \<le> 3652059)"
    unfolding todo_def by blast+
  have "\<forall>t \<in> set todo. \<exists>q. compute_quadrant t tomorrow importance_threshold urgent_days = Inr q"
    using a compute_quadrant_Inr by blast
  then obtain enriched where
    en: "enrich todo tomorrow importance_threshold urgent_days = Inr enriched"
    using enrich_Inr_iff by blast
  obtain n where lim: "compute_sched_limit (total_available_of segs) buffer_ratio = Inr n"
    using compute_sched_limit_Inr by blast
  have "set (map fst (ordered_tasks enriched ensure_q2)) = set todo"
    using mset_map_fst_ordered_tasks [OF en, of ensure_q2] by (rule mset_eq_setD)
  then have "\<forall>x \<in> set (ordered_tasks enriched ensure_q2). 0 \<le> duration_min (fst x)"
    using dur by auto
  with build_segments_in_calendar [OF day times]
  obtain final where "place_all segs n (initial_state segs)
      (ordered_tasks enriched ensure_q2) = Inr final"
    unfolding segs_def using place_all_returns by blast
  with en lim show "\<exists>r. generate_schedule tasks tomorrow blocks importance_threshold urgent_days
      buffer_ratio ensure_q2 = Inr r"
    by (simp add: generate_schedule_def Let_def fill_empty_quad_map todo_def segs_def)
qed

text \<open>The three cases at concrete inputs.\<close>

theorem generate_schedule_never_raises_witness:
  "generate_schedule [] 739000 [(clock 9 0, clock 10 0)] 4 1 BUFFER_RATIO 1
     = Inr ([], Map.empty, Map.empty, [])
   \<and> generate_schedule [mk_task ''a'' 30 5 None] 739000 [(clock 10 0, clock 9 0)] 4 1
       BUFFER_RATIO 1
     = Inr ([], Map.empty, Map.empty, [mk_task ''a'' 30 5 None])
   \<and> (\<exists>r. generate_schedule [mk_task ''a'' 30 5 (Some 739000)] 739000
             [(clock 9 0, clock 10 0)] 4 1 BUFFER_RATIO 1 = Inr r)"
  using generate_schedule_never_raises [where tasks = "[]" and tomorrow = 739000
      and blocks = "[(clock 9 0, clock 10 0)]" and importance_threshold = 4
      and urgent_days = 1 and buffer_ratio = BUFFER_RATIO, of 1]
    generate_schedule_never_raises [where tasks = "[mk_task ''a'' 30 5 None]"
      and tomorrow = 739000 and blocks = "[(clock 10 0, clock 9 0)]"
      and importance_threshold = 4 and urgent_days = 1 and buffer_ratio = BUFFER_RATIO, of 1]
    generate_schedule_never_raises [where tasks = "[mk_task ''a'' 30 5 (Some 739000)]"
      and tomorrow = 739000 and blocks = "[(clock 9 0, clock 10 0)]"
      and importance_threshold = 4 and urgent_days = 1 and buffer_ratio = BUFFER_RATIO, of 1]
  by (simp add: mk_task_def dt_on_def clock_def)

text \<open>
  Claim C7 as stated fails: a todo task with a due date, a valid segment and an urgency
  window reaching past the year 9999 make the classification raise inside the generator.
\<close>

theorem generate_schedule_raises_counterexample:
  "generate_schedule [mk_task ''a'' 30 5 (Some 739000)] 739000 [(clock 9 0, clock 10 0)] 4
     3000000 BUFFER_RATIO 1 = Inl OverflowError"
proof -
  obtain n where "compute_sched_limit
      (total_available_of (build_segments 739000 [(clock 9 0, clock 10 0)])) BUFFER_RATIO = Inr n"
    using compute_sched_limit_Inr by blast
  then show ?thesis
    by (simp add: generate_schedule_def mk_task_def Let_def dt_on_def clock_def
        compute_quadrant_def date_add_days_def)
qed

text \<open>
  Claim C4, as amended.  Whenever \<^verbatim>\<open>generate_schedule\<close> returns a non-empty meta, on
  todo tasks of non-negative duration and free time below \<open>2 ^ 53\<close> minutes (the integers a
  float holds exactly), the meta has exactly the keys \<open>total_available_min\<close>,
  \<open>sched_limit_min\<close> and \<open>used_min\<close>; their values are integers with
  \<open>0 \<le> used_min \<le> sched_limit_min \<le> total_available_min\<close>, the first the free minutes
  of the valid segments; and \<open>used_min\<close> is the sum of the durations of exactly the tasks
  placed in the schedule, which with the overflow are the todo tasks.
\<close>

theorem schedule_meta_budget:
  assumes "\<forall>t \<in> set tasks. status t = ''todo'' \<longrightarrow> 0 \<le> duration_min t"
    and "total_available_of (build_segments tomorrow blocks) < 2 ^ 53"
    and "generate_schedule tasks tomorrow blocks importance_threshold urgent_days buffer_ratio
           ensure_q2 = Inr (sch, quad_map, meta, ov)"
    and "meta \<noteq> Map.empty"
  shows "\<exists>total_available sched_limit used_min placed.
     meta ''total_available_min'' = Some total_available
     \<and> meta ''sched_limit_min'' = Some sched_limit
     \<and> meta ''used_min'' = Some used_min
     \<and> dom meta = {''total_available_min'', ''sched_limit_min'', ''used_min''}
     \<and> total_available = total_available_of (build_segments tomorrow blocks)
     \<and> 0 \<le> used_min \<and> used_min \<le> sched_limit \<and> sched_limit \<le> total_available
     \<and> list_all2 entry_for placed sch
     \<and> mset placed + mset ov = mset (filter (\<lambda>t. status t = ''todo'') tasks)
     \<and> used_min = sum_list (map duration_min placed)"
proof -
  define todo where "todo = filter (\<lambda>t. status t = ''todo'') tasks"
  define segs where "segs = build_segments tomorrow blocks"
  have todo: "todo \<noteq> []" and segs: "segs \<noteq> []"
    using assms(3,4) by (auto simp: generate_schedule_def Let_def todo_def segs_def split: if_splits)
  from generate_schedule_main [OF todo [unfolded todo_def] segs [unfolded segs_def] assms(3)]
  obtain sched_limit enriched final where
    lim: "compute_sched_limit (total_available_of segs) buffer_ratio = Inr sched_limit"
    and en: "enrich todo tomorrow importance_threshold urgent_days = Inr enriched"
    and pa: "place_all segs sched_limit (initial_state segs)
               (ordered_tasks enriched ensure_q2) = Inr final"
    and sch: "sch = schedule final"
    and ov: "ov = overflow final"
    and meta: "meta = make_meta (total_available_of segs) sched_limit (used final)"
    unfolding todo_def segs_def by blast
  have b: "0 \<le> sched_limit \<and> sched_limit \<le> total_available_of segs"
    using total_available_nonneg assms(2) lim unfolding segs_def
    by (rule compute_sched_limit_bounds)
  from place_all_accounting [OF pa]
  obtain placed where p: "list_all2 entry_for placed sch"
    and m: "mset placed + mset ov = mset (map fst (ordered_tasks enriched ensure_q2))"
    and u: "used final = sum_list (map duration_min placed)"
    and ul: "used final \<le> sched_limit"
    using sch ov b initial_state_fields [of segs] by auto
  have "mset (map fst (ordered_tasks enriched ensure_q2)) = mset todo"
    using en by (rule mset_map_fst_ordered_tasks)
  with m have m': "mset placed + mset ov = mset todo" by simp
  then have "set placed \<subseteq> set todo"
    by (metis mset_subset_eq_add_left set_mset_mono set_mset_mset)
  then have "0 \<le> duration_min t" if "t \<in> set placed" for t
    using that assms(1) by (auto simp: todo_def)
  then have u0: "0 \<le> sum_list (map duration_min placed)"
    by (intro sum_list_nonneg) auto
  have "meta ''total_available_min'' = Some (total_available_of segs)
     \<and> meta ''sched_limit_min'' = Some sched_limit
     \<and> meta ''used_min'' = Some (used final)
     \<and> dom meta = {''total_available_min'', ''sched_limit_min'', ''used_min''}
     \<and> total_available_of segs = total_available_of segs
     \<and> 0 \<le> used final \<and> used final \<le> sched_limit
     \<and> sched_limit \<le> total_available_of segs
     \<and> list_all2 entry_for placed sch
     \<and> mset placed + mset ov = mset todo
     \<and> used final = sum_list (map duration_min placed)"
    using b p m' u ul u0 by (simp add: meta make_meta_fields dom_make_meta)
  then show ?thesis unfolding todo_def segs_def by iprover
qed

text \<open>
  An hour of free time, a task of 30 minutes placed and one of 45 minutes over the limit: the
  three values of the returned meta are 60, 48 and 30.
\<close>

theorem schedule_meta_budget_witness:
  "\<exists>quad_map meta.
     generate_schedule [mk_task ''a'' 30 5 None, mk_task ''b'' 45 2 None] 739000
       [(clock 9 0, clock 10 0)] 4 1 BUFFER_RATIO 1
     = Inr ([new_entry 63849632400 30 (mk_task ''a'' 30 5 None) Q2], quad_map, meta,
            [mk_task ''b'' 45 2 None])
     \<and> meta ''total_available_min'' = Some 60
     \<and> meta ''sched_limit_min'' = Some 48
     \<and> meta ''used_min'' = Some 30
     \<and> dom meta = {''total_available_min'', ''sched_limit_min'', ''used_min''}
     \<and> (\<exists>placed. list_all2 entry_for placed
            [new_entry 63849632400 30 (mk_task ''a'' 30 5 None) Q2]
          \<and> (30 :: int) = sum_list (map duration_min placed))"
proof -
  let ?tasks = "[mk_task ''a'' 30 5 None, mk_task ''b'' 45 2 None]"
  let ?blocks = "[(clock 9 0, clock 10 0)]"
  let ?e = "new_entry 63849632400 30 (mk_task ''a'' 30 5 None) Q2"
  have "view_result (generate_schedule ?tasks 739000 ?blocks 4 1 BUFFER_RATIO 1)
     = Inr ([?e],
            [Some [], Some [mk_task ''a'' 30 5 None], Some [], Some [mk_task ''b'' 45 2 None]],
            [Some 60, Some 48, Some 30], [mk_task ''b'' 45 2 None])"
    by code_simp
  then obtain quad_map meta where g:
    "generate_schedule ?tasks 739000 ?blocks 4 1 BUFFER_RATIO 1
     = Inr ([?e], quad_map, meta, [mk_task ''b'' 45 2 None])"
    and v: "meta ''total_available_min'' = Some 60" "meta ''sched_limit_min'' = Some 48"
      "meta ''used_min'' = Some 30"
    by (auto simp: view_result_def split: sum.splits prod.splits)
  have d: "\<forall>t \<in> set ?tasks. status t = ''todo'' \<longrightarrow> 0 \<le> duration_min t"
    by (simp add: mk_task_def)
  have tot: "total_available_of (build_segments 739000 ?blocks) < 2 ^ 53"
    by (simp add: total_available_of_def dt_on_def clock_def minutes_between_def)
  have ne: "meta \<noteq> Map.empty" using v(1) by auto
  from schedule_meta_budget [OF d tot g ne]
  obtain used_min placed where r: "meta ''used_min'' = Some used_min"
    "dom meta = {''total_available_min'', ''sched_limit_min'', ''used_min''}"
    "list_all2 entry_for placed [?e]" "used_min = sum_list (map duration_min placed)"
    by iprover
  from r(1) v(3) have "used_min = 30" by simp
  with r(4) have "(30 :: int) = sum_list (map duration_min placed)" by simp
  with r(2,3) have "dom meta = {''total_available_min'', ''sched_limit_min'', ''used_min''}
     \<and> (\<exists>placed. list_all2 entry_for placed [?e]
          \<and> (30 :: int) = sum_list (map duration_min placed))"
    by iprover
  with g v show ?thesis by iprover
qed

text \<open>
  Claim C4 as stated fails on a todo task of negative duration: it passes the budget check,
  is placed ending before it starts, and the returned \<open>used_min\<close> is negative.
\<close>

theorem negative_duration_counterexample:
  "view_result (generate_schedule [mk_task ''a'' (- 30) 5 None] 739000
       [(clock 9 0, clock 10 0)] 4 1 BUFFER_RATIO 1)
   = Inr ([new_entry 63849632400 (- 30) (mk_task ''a'' (- 30) 5 None) Q2],
          [Some [], Some [mk_task ''a'' (- 30) 5 None], Some [], Some []],
          [Some 60, Some 48, Some (- 30)], [])"
  by code_simp

text \<open>
  Claim C5 asks for \<open>sched_limit_min = floor (total_available_min * (1 - clamp))\<close>, which is
  12 for one hour of free time and a buffer ratio of 0.9 clamped to 0.8.  The code computes
  \<^verbatim>\<open>int(60 * (1.0 - 0.8))\<close> in binary64: \<^verbatim>\<open>1.0 - 0.8\<close> is just below 1/5, the
  product just below 12, and the truncation gives 11; a task of 12 minutes goes to the
  overflow.  The float 0.9 is the rational below.
\<close>

theorem sched_limit_rounding_at_clamp:
  "view_result (generate_schedule [mk_task ''a'' 12 5 None] 739000 [(clock 9 0, clock 10 0)] 4 1
     (Finite (8106479329266893 / 9007199254740992)) 1)
   = Inr ([], [Some [], Some [mk_task ''a'' 12 5 None], Some [], Some []],
          [Some 60, Some 11, Some 0], [mk_task ''a'' 12 5 None])"
  by code_simp

text \<open>
  Claim C2, as amended.  Every entry of a returned schedule lies within the bounds of some
  valid input segment.  When the valid segments, given in any order, are pairwise disjoint
  and no todo task has a negative duration, any two entries of the schedule have
  non-overlapping \<open>[start, end)\<close> intervals.
\<close>

theorem schedule_entries_within_and_disjoint:
  assumes "generate_schedule tasks tomorrow blocks importance_threshold urgent_days buffer_ratio
             ensure_q2 = Inr (sch, quad_map, meta, ov)"
  shows "(\<forall>e \<in> set sch. \<exists>seg \<in> set (build_segments tomorrow blocks). within_segment seg e)
    \<and> (segments_disjoint (build_segments tomorrow blocks)
         \<and> (\<forall>t \<in> set tasks. status t = ''todo'' \<longrightarrow> 0 \<le> duration_min t)
       \<longrightarrow> (\<forall>i j. i < j \<and> j < length sch \<longrightarrow> non_overlapping (sch ! i) (sch ! j)))"
proof (cases "filter (\<lambda>t. status t = ''todo'') tasks = [] \<or> build_segments tomorrow blocks = []")
  case True
  with assms have "sch = []" by (auto simp: generate_schedule_def Let_def split: if_splits)
  then show ?thesis by simp
next
  case False
  define todo where "todo = filter (\<lambda>t. status t = ''todo'') tasks"
  define segs where "segs = build_segments tomorrow blocks"
  from False have todo: "todo \<noteq> []" and segs: "segs \<noteq> []" by (simp_all add: todo_def segs_def)
  from generate_schedule_main [OF todo [unfolded todo_def] segs [unfolded segs_def] assms]
  obtain sched_limit enriched final where
    en: "enrich todo tomorrow importance_threshold urgent_days = Inr enriched"
    and pa: "place_all segs sched_limit (initial_state segs)
               (ordered_tasks enriched ensure_q2) = Inr final"
    and sch: "sch = schedule final"
    unfolding todo_def segs_def by blast
  have "\<forall>e \<in> set (schedule (initial_state segs)).
      \<exists>k < length segs. within_segment (segs ! k) e"
    by (simp add: initial_state_fields)
  then have "\<forall>e \<in> set sch. \<exists>k < length segs. within_segment (segs ! k) e"
    unfolding sch using pa by (rule place_all_within)
  then have w: "\<forall>e \<in> set sch. \<exists>seg \<in> set segs. within_segment seg e"
    using nth_mem [of _ segs] by blast
  have n: "\<forall>i j. i < j \<and> j < length sch \<longrightarrow> non_overlapping (sch ! i) (sch ! j)"
    if dis: "segments_disjoint segs"
      and dur: "\<forall>t \<in> set tasks. status t = ''todo'' \<longrightarrow> 0 \<le> duration_min t"
  proof -
    have "set (map fst (ordered_tasks enriched ensure_q2)) = set todo"
      using mset_map_fst_ordered_tasks [OF en, of ensure_q2] by (rule mset_eq_setD)
    then have "\<forall>x \<in> set (ordered_tasks enriched ensure_q2). 0 \<le> duration_min (fst x)"
      using dur by (auto simp: todo_def)
    with initial_state_inv dis have "placement_inv segs final"
      using pa by (rule place_all_inv)
    then have "sorted_wrt non_overlapping sch" by (simp add: placement_inv_def sch)
    then show ?thesis by (auto simp: sorted_wrt_iff_nth_less)
  qed
  from w n show ?thesis unfolding segs_def by blast
qed

text \<open>Two disjoint segments given in reverse chronological order, one task in each.\<close>

theorem schedule_entries_within_and_disjoint_witness:
  "\<exists>quad_map meta.
     generate_schedule [mk_task ''a'' 60 5 None, mk_task ''b'' 30 5 None] 739000
       [(clock 13 0, clock 14 0), (clock 9 0, clock 10 0)] 4 1 BUFFER_RATIO 1
     = Inr ([new_entry 63849646800 60 (mk_task ''a'' 60 5 None) Q2,
             new_entry 63849632400 30 (mk_task ''b'' 30 5 None) Q2], quad_map, meta, [])
     \<and> segments_disjoint (build_segments 739000 [(clock 13 0, clock 14 0), (clock 9 0, clock 10 0)])
     \<and> non_overlapping (new_entry 63849646800 60 (mk_task ''a'' 60 5 None) Q2)
          (new_entry 63849632400 30 (mk_task ''b'' 30 5 None) Q2)"
proof -
  let ?tasks = "[mk_task ''a'' 60 5 None, mk_task ''b'' 30 5 None]"
  let ?blocks = "[(clock 13 0, clock 14 0), (clock 9 0, clock 10 0)]"
  let ?ea = "new_entry 63849646800 60 (mk_task ''a'' 60 5 None) Q2"
  let ?eb = "new_entry 63849632400 30 (mk_task ''b'' 30 5 None) Q2"
  have "view_result (generate_schedule ?tasks 739000 ?blocks 4 1 BUFFER_RATIO 1)
     = Inr ([?ea, ?eb],
            [Some [], Some [mk_task ''a'' 60 5 None, mk_task ''b'' 30 5 None], Some [], Some []],
            [Some 120, Some 96, Some 90], [])"
    by code_simp
  then obtain quad_map meta where g:
    "generate_schedule ?tasks 739000 ?blocks 4 1 BUFFER_RATIO 1
     = Inr ([?ea, ?eb], quad_map, meta, [])"
    by (auto simp: view_result_def split: sum.splits prod.splits)
  have dis: "segments_disjoint (build_segments 739000 ?blocks)"
    by (simp add: segments_disjoint_def dt_on_def clock_def)
  have dur: "\<forall>t \<in> set ?tasks. status t = ''todo'' \<longrightarrow> 0 \<le> duration_min t"
    by (simp add: mk_task_def)
  from schedule_entries_within_and_disjoint [OF g] dis dur
  have all: "\<forall>i j. i < j \<and> j < length [?ea, ?eb]
      \<longrightarrow> non_overlapping ([?ea, ?eb] ! i) ([?ea, ?eb] ! j)"
    by blast
  have "non_overlapping ([?ea, ?eb] ! 0) ([?ea, ?eb] ! Suc 0)"
    using all [rule_format, of 0 "Suc 0"] by simp
  then have "non_overlapping ?ea ?eb" by simp
  with g dis show ?thesis by blast
qed

text \<open>
  Claim C2 as stated fails when input segments overlap.  With the blocks 09:00 to 11:00 and
  09:00 to 10:00, a task of 120 minutes fills the first segment; for the next task
  \<^verbatim>\<open>move_cursor\<close> leaves the first segment and resets the cursor to the start of the
  second, 09:00, where a task of 20 minutes is placed over the first entry.
\<close>

theorem overlapping_segments_counterexample:
  "view_result (generate_schedule [mk_task ''a'' 120 5 None, mk_task ''b'' 20 5 None] 739000
       [(clock 9 0, clock 11 0), (clock 9 0, clock 10 0)] 4 1 BUFFER_RATIO 1)
     = Inr ([new_entry 63849632400 120 (mk_task ''a'' 120 5 None) Q2,
             new_entry 63849632400 20 (mk_task ''b'' 20 5 None) Q2],
            [Some [], Some [mk_task ''a'' 120 5 None, mk_task ''b'' 20 5 None], Some [], Some []],
            [Some 180, Some 144, Some 140], [])
   \<and> \<not> non_overlapping (new_entry 63849632400 120 (mk_task ''a'' 120 5 None) Q2)
          (new_entry 63849632400 20 (mk_task ''b'' 20 5 None) Q2)"
  by code_simp

text \<open>
  Claim C9, as amended.  Split a run of the placement loop of \<^verbatim>\<open>generate_schedule\<close> at
  any point of the ordered task list: \<open>st1\<close> is the loop state after the tasks \<open>xs\<close>,
  \<open>st2\<close> the final state after the remaining tasks \<open>ys\<close>.  The segment index never
  decreases.  Every entry placed after the split lies within a segment at or after the
  index reached at the split, so capacity left in a skipped segment is lost for good, also
  for a later task short enough to fit there.  Once one task has exhausted all segments,
  every later task goes to the overflow, whatever the budget.  When the valid segments are in
  chronological order and the remaining tasks have non-negative durations, the time cursor
  never decreases either, and every later entry starts at or after the cursor left at the
  split.
\<close>

theorem placement_never_moves_back:
  assumes gen: "generate_schedule tasks tomorrow blocks importance_threshold urgent_days
      buffer_ratio ensure_q2 = Inr (sch, quad_map, meta, ov)"
    and todo: "filter (\<lambda>t. status t = ''todo'') tasks \<noteq> []"
    and segs: "segments = build_segments tomorrow blocks" "segments \<noteq> []"
    and lim: "compute_sched_limit (total_available_of segments) buffer_ratio = Inr sched_limit"
    and en: "enrich (filter (\<lambda>t. status t = ''todo'') tasks) tomorrow importance_threshold
      urgent_days = Inr enriched"
    and split: "ordered_tasks enriched ensure_q2 = xs @ ys"
  shows "\<exists>st1 st2.
      place_all segments sched_limit (initial_state segments) xs = Inr st1
    \<and> place_all segments sched_limit st1 ys = Inr st2
    \<and> sch = schedule st2 \<and> ov = overflow st2
    \<and> seg_idx st1 \<le> seg_idx st2
    \<and> (\<exists>es. schedule st2 = schedule st1 @ es
          \<and> (\<forall>e \<in> set es. \<exists>k. seg_idx st1 \<le> k \<and> k < length segments
                \<and> within_segment (segments ! k) e)
          \<and> (chronological segments \<and> (\<forall>x \<in> set ys. 0 \<le> duration_min (fst x))
              \<longrightarrow> (\<forall>e \<in> set es. cursor st1 \<le> start e)))
    \<and> (length segments \<le> seg_idx st1
          \<longrightarrow> schedule st2 = schedule st1 \<and> overflow st2 = overflow st1 @ map fst ys)
    \<and> (chronological segments \<and> (\<forall>x \<in> set ys. 0 \<le> duration_min (fst x))
          \<longrightarrow> cursor st1 \<le> cursor st2)"
proof -
  from generate_schedule_main [OF todo segs(2) [unfolded segs(1)] gen] lim en
  obtain final where "place_all segments sched_limit (initial_state segments)
      (ordered_tasks enriched ensure_q2) = Inr final"
    and f: "sch = schedule final" "ov = overflow final"
    unfolding segs(1) by auto
  then obtain st1 where st1: "place_all segments sched_limit (initial_state segments) xs = Inr st1"
    and st2: "place_all segments sched_limit st1 ys = Inr final"
    unfolding split place_all_append by blast
  have mono: "seg_idx st1 \<le> seg_idx final" using st2 by (rule place_all_seg_idx_mono)
  obtain es where es: "schedule final = schedule st1 @ es"
    "\<forall>e \<in> set es. \<exists>k. seg_idx st1 \<le> k \<and> k < length segments \<and> within_segment (segments ! k) e"
    using place_all_new_entries [OF st2] by blast
  have valid: "\<forall>seg \<in> set segments. fst seg < snd seg"
    unfolding segs(1) using build_segments_valid by blast
  have ok: "cursor_ok segments (seg_idx st1) (cursor st1)"
    using initial_state_cursor_ok st1 by (rule place_all_cursor_ok)
  have chrono: "cursor st1 \<le> cursor final \<and> (\<forall>e \<in> set es. cursor st1 \<le> start e)"
    if "chronological segments \<and> (\<forall>x \<in> set ys. 0 \<le> duration_min (fst x))"
    using place_all_chrono [OF _ valid ok _ st2] that es(1) by simp
  have ex: "schedule final = schedule st1 \<and> overflow final = overflow st1 @ map fst ys"
    if "length segments \<le> seg_idx st1"
    using place_all_exhausted [OF that, of sched_limit ys] st2 by simp
  have "place_all segments sched_limit (initial_state segments) xs = Inr st1
    \<and> place_all segments sched_limit st1 ys = Inr final
    \<and> sch = schedule final \<and> ov = overflow final
    \<and> seg_idx st1 \<le> seg_idx final
    \<and> (\<exists>es. schedule final = schedule st1 @ es
          \<and> (\<forall>e \<in> set es. \<exists>k. seg_idx st1 \<le> k \<and> k < length segments
                \<and> within_segment (segments ! k) e)
          \<and> (chronological segments \<and> (\<forall>x \<in> set ys. 0 \<le> duration_min (fst x))
              \<longrightarrow> (\<forall>e \<in> set es. cursor st1 \<le> start e)))
    \<and> (length segments \<le> seg_idx st1
          \<longrightarrow> schedule final = schedule st1 \<and> overflow final = overflow st1 @ map fst ys)
    \<and> (chronological segments \<and> (\<forall>x \<in> set ys. 0 \<le> duration_min (fst x))
          \<longrightarrow> cursor st1 \<le> cursor final)"
    using st1 st2 f mono es chrono ex by blast
  then show ?thesis by iprover
qed

text \<open>
  Two segments in chronological order.  The second task does not fit the 15 minutes left of
  the first segment and is placed in the second; the third, of 15 minutes, follows it there.
\<close>

theorem placement_never_moves_back_witness:
  "\<exists>quad_map meta st1 st2.
     generate_schedule
       [mk_task ''a'' 45 5 None, mk_task ''b'' 30 5 None, mk_task ''c'' 15 5 None] 739000
       [(clock 9 0, clock 10 0), (clock 13 0, clock 14 0)] 4 1 BUFFER_RATIO 1
     = Inr ([new_entry 63849632400 45 (mk_task ''a'' 45 5 None) Q2,
             new_entry 63849646800 30 (mk_task ''b'' 30 5 None) Q2,
             new_entry 63849648600 15 (mk_task ''c'' 15 5 None) Q2], quad_map, meta, [])
     \<and> chronological (build_segments 739000 [(clock 9 0, clock 10 0), (clock 13 0, clock 14 0)])
     \<and> place_all (build_segments 739000 [(clock 9 0, clock 10 0), (clock 13 0, clock 14 0)])
          96 (initial_state (build_segments 739000 [(clock 9 0, clock 10 0), (clock 13 0, clock 14 0)]))
          [(mk_task ''a'' 45 5 None, Q2, 1000000000), (mk_task ''b'' 30 5 None, Q2, 1000000000)]
        = Inr st1
     \<and> place_all (build_segments 739000 [(clock 9 0, clock 10 0), (clock 13 0, clock 14 0)])
          96 st1 [(mk_task ''c'' 15 5 None, Q2, 1000000000)] = Inr st2
     \<and> seg_idx st1 \<le> seg_idx st2 \<and> cursor st1 \<le> cursor st2"
proof -
  let ?a = "mk_task ''a'' 45 5 None" and ?b = "mk_task ''b'' 30 5 None"
    and ?c = "mk_task ''c'' 15 5 None"
  let ?blocks = "[(clock 9 0, clock 10 0), (clock 13 0, clock 14 0)]"
  let ?segs = "build_segments 739000 ?blocks"
  let ?sch = "[new_entry 63849632400 45 ?a Q2, new_entry 63849646800 30 ?b Q2,
      new_entry 63849648600 15 ?c Q2]"
  let ?xs = "[(?a, Q2, 1000000000), (?b, Q2, 1000000000)]"
  let ?ys = "[(?c, Q2, 1000000000 :: int)]"
  have "view_result (generate_schedule [?a, ?b, ?c] 739000 ?blocks 4 1 BUFFER_RATIO 1)
     = Inr (?sch, [Some [], Some [?a, ?b, ?c], Some [], Some []],
            [Some 120, Some 96, Some 90], [])"
    by code_simp
  then obtain quad_map meta where g:
    "generate_schedule [?a, ?b, ?c] 739000 ?blocks 4 1 BUFFER_RATIO 1
     = Inr (?sch, quad_map, meta, [])"
    by (auto simp: view_result_def split: sum.splits prod.splits)
  have todo: "filter (\<lambda>t. status t = ''todo'') [?a, ?b, ?c] \<noteq> []"
    by (simp add: mk_task_def)
  have ne: "?segs \<noteq> []" by (simp add: dt_on_def clock_def)
  have lim: "compute_sched_limit (total_available_of ?segs) BUFFER_RATIO = Inr 96"
    by code_simp
  have en: "enrich (filter (\<lambda>t. status t = ''todo'') [?a, ?b, ?c]) 739000 4 1
      = Inr (?xs @ ?ys)"
    by code_simp
  have split: "ordered_tasks (?xs @ ?ys) 1 = ?xs @ ?ys"
    by code_simp
  have chr: "chronological ?segs"
    by (simp add: chronological_def dt_on_def clock_def)
  have dur: "\<forall>x \<in> set ?ys. 0 \<le> duration_min (fst x)"
    by (simp add: mk_task_def)
  from placement_never_moves_back [OF g todo refl ne lim en split] chr dur
  obtain st1 st2 where "place_all ?segs 96 (initial_state ?segs) ?xs = Inr st1"
    "place_all ?segs 96 st1 ?ys = Inr st2" "seg_idx st1 \<le> seg_idx st2"
    "cursor st1 \<le> cursor st2"
    by blast
  with g chr show ?thesis by iprover
qed

text \<open>
  Claim C9 as stated fails for the time cursor when the segments are not in chronological
  order.  With the blocks 13:00 to 14:00 and 09:00 to 10:00, the first task leaves the cursor
  at 14:00; the second task is then placed at 09:00, and the cursor ends at 09:30.
\<close>

theorem cursor_moves_back_counterexample:
  "view_result (generate_schedule [mk_task ''a'' 60 5 None, mk_task ''b'' 30 5 None] 739000
       [(clock 13 0, clock 14 0), (clock 9 0, clock 10 0)] 4 1 BUFFER_RATIO 1)
     = Inr ([new_entry 63849646800 60 (mk_task ''a'' 60 5 None) Q2,
             new_entry 63849632400 30 (mk_task ''b'' 30 5 None) Q2],
            [Some [], Some [mk_task ''a'' 60 5 None, mk_task ''b'' 30 5 None], Some [], Some []],
            [Some 120, Some 96, Some 90], [])
   \<and> map_sum id cursor
        (place_all (build_segments 739000 [(clock 13 0, clock 14 0), (clock 9 0, clock 10 0)])
        96 (initial_state (build_segments 739000 [(clock 13 0, clock 14 0), (clock 9 0, clock 10 0)]))
        [(mk_task ''a'' 60 5 None, Q2, 1000000000)]) = Inr 63849650400
   \<and> start (new_entry 63849632400 30 (mk_task ''b'' 30 5 None) Q2) < 63849650400
   \<and> map_sum id cursor
        (place_all (build_segments 739000 [(clock 13 0, clock 14 0), (clock 9 0, clock 10 0)])
        96 (initial_state (build_segments 739000 [(clock 13 0, clock 14 0), (clock 9 0, clock 10 0)]))
        [(mk_task ''a'' 60 5 None, Q2, 1000000000), (mk_task ''b'' 30 5 None, Q2, 1000000000)])
      = Inr 63849634200"
  by code_simp

text \<open>
  Claim C6.  Past the early returns, \<^verbatim>\<open>generate_schedule\<close> classifies the todo tasks in
  input order and runs the placement loop over \<open>Q1 @ Q2_early @ Q2_rest @ Q3 @ Q4\<close>: the
  Q1, Q2 and Q3 buckets sorted ascending by \<open>(due_key, - importance)\<close>, the Q4 bucket by
  \<open>(- importance, due_key)\<close> (each sort stable), \<open>Q2_early\<close> the first \<open>max 0 ensure_q2\<close>
  elements of the sorted Q2 bucket and \<open>Q2_rest\<close> the others.  \<open>due_key\<close> is the ordinal
  of the due date when there is one, and otherwise the sentinel \<open>10 ^ 9\<close>, above the ordinal
  3652059 of the last date of the calendar, so that tasks without deadline sort last.
\<close>

theorem placement_order:
  assumes "generate_schedule tasks tomorrow blocks importance_threshold urgent_days buffer_ratio
             ensure_q2 = Inr (sch, quad_map, meta, ov)"
    and "filter (\<lambda>t. status t = ''todo'') tasks \<noteq> []"
    and "build_segments tomorrow blocks \<noteq> []"
  shows "(\<exists>sched_limit enriched q1 q2 q3 q4 final.
       list_all2 (\<lambda>t x. fst x = t
            \<and> compute_quadrant t tomorrow importance_threshold urgent_days = Inr (fst (snd x)))
         (filter (\<lambda>t. status t = ''todo'') tasks) enriched
     \<and> stably_sorted by_due_then_importance (bucket Q1 enriched) q1
     \<and> stably_sorted by_due_then_importance (bucket Q2 enriched) q2
     \<and> stably_sorted by_due_then_importance (bucket Q3 enriched) q3
     \<and> stably_sorted by_importance_then_due (bucket Q4 enriched) q4
     \<and> place_all (build_segments tomorrow blocks) sched_limit
           (initial_state (build_segments tomorrow blocks))
           (q1 @ take (nat (max 0 ensure_q2)) q2 @ drop (nat (max 0 ensure_q2)) q2 @ q3 @ q4)
         = Inr final
     \<and> sch = schedule final \<and> ov = overflow final)
   \<and> (\<forall>t d. due t = Some d \<longrightarrow> due_key t = d)
   \<and> (\<forall>t t' d. due t = Some d \<and> d \<le> 3652059 \<and> due t' = None \<longrightarrow> due_key t < due_key t')"
proof -
  from generate_schedule_main [OF assms(2,3,1)]
  obtain sched_limit enriched final where
    en: "enrich (filter (\<lambda>t. status t = ''todo'') tasks) tomorrow importance_threshold
           urgent_days = Inr enriched"
    and pa: "place_all (build_segments tomorrow blocks) sched_limit
               (initial_state (build_segments tomorrow blocks))
               (ordered_tasks enriched ensure_q2) = Inr final"
    and sch: "sch = schedule final" and ov: "ov = overflow final"
    by blast
  note u = ordered_tasks_unfold [of enriched ensure_q2]
  have "list_all2 (\<lambda>t x. fst x = t
            \<and> compute_quadrant t tomorrow importance_threshold urgent_days = Inr (fst (snd x)))
         (filter (\<lambda>t. status t = ''todo'') tasks) enriched"
    using en by (rule enrich_list_all2)
  with stably_sorted_due_first [OF en, of Q1] stably_sorted_due_first [OF en, of Q2]
    stably_sorted_due_first [OF en, of Q3] stably_sorted_importance_first [OF en, of Q4]
    pa [unfolded u] sch ov
  have "\<exists>sched_limit enriched q1 q2 q3 q4 final.
       list_all2 (\<lambda>t x. fst x = t
            \<and> compute_quadrant t tomorrow importance_threshold urgent_days = Inr (fst (snd x)))
         (filter (\<lambda>t. status t = ''todo'') tasks) enriched
     \<and> stably_sorted by_due_then_importance (bucket Q1 enriched) q1
     \<and> stably_sorted by_due_then_importance (bucket Q2 enriched) q2
     \<and> stably_sorted by_due_then_importance (bucket Q3 enriched) q3
     \<and> stably_sorted by_importance_then_due (bucket Q4 enriched) q4
     \<and> place_all (build_segments tomorrow blocks) sched_limit
           (initial_state (build_segments tomorrow blocks))
           (q1 @ take (nat (max 0 ensure_q2)) q2 @ drop (nat (max 0 ensure_q2)) q2 @ q3 @ q4)
         = Inr final
     \<and> sch = schedule final \<and> ov = overflow final"
    by iprover
  moreover have "\<forall>t d. due t = Some d \<longrightarrow> due_key t = d" by (simp add: due_key_def)
  moreover have "\<forall>t t' d. due t = Some d \<and> d \<le> 3652059 \<and> due t' = None \<longrightarrow> due_key t < due_key t'"
    by (simp add: due_key_def)
  ultimately show ?thesis by iprover
qed

text \<open>
  Five tasks given in the order Q4, Q3, Q2, Q1, Q1 are placed in the order Q1 (the more
  important of two tasks due the same day first), Q1, Q2, Q3, Q4.
\<close>

theorem placement_order_witness:
  "\<exists>quad_map meta.
     generate_schedule
       [mk_task ''d'' 10 2 None, mk_task ''c'' 10 3 (Some 739000), mk_task ''b'' 10 5 None,
        mk_task ''a1'' 10 4 (Some 739000), mk_task ''a2'' 10 5 (Some 739000)] 739000
       [(clock 9 0, clock 12 0)] 4 1 BUFFER_RATIO 1
     = Inr ([new_entry 63849632400 10 (mk_task ''a2'' 10 5 (Some 739000)) Q1,
             new_entry 63849633000 10 (mk_task ''a1'' 10 4 (Some 739000)) Q1,
             new_entry 63849633600 10 (mk_task ''b'' 10 5 None) Q2,
             new_entry 63849634200 10 (mk_task ''c'' 10 3 (Some 739000)) Q3,
             new_entry 63849634800 10 (mk_task ''d'' 10 2 None) Q4], quad_map, meta, [])
     \<and> (\<exists>sched_limit enriched q1 q2 q3 q4 final.
           stably_sorted by_due_then_importance (bucket Q1 enriched) q1
         \<and> stably_sorted by_due_then_importance (bucket Q2 enriched) q2
         \<and> stably_sorted by_due_then_importance (bucket Q3 enriched) q3
         \<and> stably_sorted by_importance_then_due (bucket Q4 enriched) q4
         \<and> place_all (build_segments 739000 [(clock 9 0, clock 12 0)]) sched_limit
                (initial_state (build_segments 739000 [(clock 9 0, clock 12 0)]))
                (q1 @ take (nat (max 0 1)) q2 @ drop (nat (max 0 1)) q2 @ q3 @ q4) = Inr final
         \<and> [new_entry 63849632400 10 (mk_task ''a2'' 10 5 (Some 739000)) Q1,
             new_entry 63849633000 10 (mk_task ''a1'' 10 4 (Some 739000)) Q1,
             new_entry 63849633600 10 (mk_task ''b'' 10 5 None) Q2,
             new_entry 63849634200 10 (mk_task ''c'' 10 3 (Some 739000)) Q3,
             new_entry 63849634800 10 (mk_task ''d'' 10 2 None) Q4]
           = schedule final)"
proof -
  let ?tasks = "[mk_task ''d'' 10 2 None, mk_task ''c'' 10 3 (Some 739000), mk_task ''b'' 10 5 None,
        mk_task ''a1'' 10 4 (Some 739000), mk_task ''a2'' 10 5 (Some 739000)]"
  let ?blocks = "[(clock 9 0, clock 12 0)]"
  let ?sch = "[new_entry 63849632400 10 (mk_task ''a2'' 10 5 (Some 739000)) Q1,
             new_entry 63849633000 10 (mk_task ''a1'' 10 4 (Some 739000)) Q1,
             new_entry 63849633600 10 (mk_task ''b'' 10 5 None) Q2,
             new_entry 63849634200 10 (mk_task ''c'' 10 3 (Some 739000)) Q3,
             new_entry 63849634800 10 (mk_task ''d'' 10 2 None) Q4]"
  have "view_result (generate_schedule ?tasks 739000 ?blocks 4 1 BUFFER_RATIO 1)
     = Inr (?sch,
            [Some [mk_task ''a1'' 10 4 (Some 739000), mk_task ''a2'' 10 5 (Some 739000)],
             Some [mk_task ''b'' 10 5 None], Some [mk_task ''c'' 10 3 (Some 739000)],
             Some [mk_task ''d'' 10 2 None]],
            [Some 180, Some 144, Some 50], [])"
    by code_simp
  then obtain quad_map meta where g:
    "generate_schedule ?tasks 739000 ?blocks 4 1 BUFFER_RATIO 1 = Inr (?sch, quad_map, meta, [])"
    by (auto simp: view_result_def split: sum.splits prod.splits)
  have todo: "filter (\<lambda>t. status t = ''todo'') ?tasks \<noteq> []"
    by (simp add: mk_task_def)
  have ne: "build_segments 739000 ?blocks \<noteq> []" by (simp add: dt_on_def clock_def)
  from placement_order [OF g todo ne]
  have "\<exists>sched_limit enriched q1 q2 q3 q4 final.
           stably_sorted by_due_then_importance (bucket Q1 enriched) q1
         \<and> stably_sorted by_due_then_importance (bucket Q2 enriched) q2
         \<and> stably_sorted by_due_then_importance (bucket Q3 enriched) q3
         \<and> stably_sorted by_importance_then_due (bucket Q4 enriched) q4
         \<and> place_all (build_segments 739000 ?blocks) sched_limit
                (initial_state (build_segments 739000 ?blocks))
                (q1 @ take (nat (max 0 1)) q2 @ drop (nat (max 0 1)) q2 @ q3 @ q4) = Inr final
         \<and> ?sch = schedule final"
    by iprover
  with g show ?thesis by iprover
qed

end
